theory Spec2Isabelle
  imports
    Main
    "HOL-Library.Char_ord"
    "HOL-Library.List_Lexorder"
    "HOL-Library.Product_Lexorder"
begin

section \<open>Common types of the metabase\<close>

text \<open>
  Identifiers (\<open>uuid.UUID\<close>, \<open>storj.PieceID\<close>, \<open>storj.NodeID\<close>) are opaque byte
  arrays in the Go code; only equality and the zero test are used on them. They are
  natural numbers here, with \<open>0\<close> for the all-zero value. A \<open>time.Time\<close> is an
  instant on an integer axis, \<open>0\<close> being Go's zero time. A pointer that may be
  \<open>nil\<close> (\<open>*time.Time\<close>) and a nullable column are an \<open>option\<close>.
\<close>

type_synonym UUID = nat
type_synonym Time = int
type_synonym Version = int

text \<open>
  The error classes of \<open>errs.Class\<close>. \<open>Error\<close> is the package's general class that
  wraps backend failures; \<open>RetentionInvalid\<close> and \<open>TooManyRequeries\<close> stand for the
  class-less errors made with \<open>errs.New\<close>; \<open>Panic\<close> is a run-time panic
  (a slice bound out of range).
\<close>

datatype error =
    ErrInvalidRequest
  | ErrObjectNotFound
  | ErrPendingObjectMissing
  | ErrSegmentNotFound
  | ErrFailedPrecondition
  | ErrConflict
  | ErrValueChanged
  | ErrObjectExpiration
  | ErrObjectStatus
  | ErrObjectLock
  | Error
  | RetentionInvalid
  | TooManyRequeries
  | Panic

datatype ObjectStatus =
    Pending
  | CommittedUnversioned
  | CommittedVersioned
  | DeleteMarkerVersioned
  | DeleteMarkerUnversioned
  | Prefix

text \<open>Go's \<open>int64\<close> arithmetic wraps around; \<open>uint32(i)\<close> truncates.\<close>

definition int64 :: "int \<Rightarrow> int" where
  "int64 x = (x + 2 ^ 63) mod 2 ^ 64 - 2 ^ 63"

definition uint32 :: "nat \<Rightarrow> nat" where
  "uint32 i = i mod 2 ^ 32"

text \<open>\<open>NextVersion\<close> is the sentinel of \<open>BeginObjectNextVersion\<close>.\<close>

definition NextVersion :: Version where
  "NextVersion = 0"

record ObjectStream =
  ProjectID :: UUID
  BucketName :: string
  ObjectKey :: string
  Version :: Version
  StreamID :: UUID

record EncryptionParameters =
  CipherSuite :: nat
  BlockSize :: int

definition EncUnspecified :: nat where
  "EncUnspecified = 0"

definition EncryptionIsZero :: "EncryptionParameters \<Rightarrow> bool" where
  "EncryptionIsZero e \<longleftrightarrow> CipherSuite e = 0 \<and> BlockSize e = 0"

record EncryptedUserData =
  EncryptedMetadata :: "nat list"
  EncryptedMetadataNonce :: "nat list"
  EncryptedMetadataEncryptedKey :: "nat list"
  EncryptedETag :: "nat list"

subsection \<open>Retention\<close>

datatype RetentionMode = NoRetention | ComplianceMode | GovernanceMode

record Retention =
  Mode :: RetentionMode
  RetainUntil :: Time

text \<open>
  Modelled from the spec: the methods \<open>Enabled\<close>, \<open>Active\<close> and \<open>Verify\<close> of
  \<open>Retention\<close> are not among the sources at hand. The spec's retention model is the sum
  \<open>none | governance(until) | compliance(until)\<close>: a configuration is enabled when its
  mode is not \<open>none\<close>, it is active while the retain-until instant lies in the future,
  and it is well formed when exactly the enabled modes carry a retain-until instant.
\<close>

definition Enabled :: "Retention \<Rightarrow> bool" where
  "Enabled r \<longleftrightarrow> Mode r \<noteq> NoRetention"

definition Active :: "Time \<Rightarrow> Retention \<Rightarrow> bool" where
  "Active now r \<longleftrightarrow> Enabled r \<and> now < RetainUntil r"

definition RetentionVerify :: "Retention \<Rightarrow> error option" where
  "RetentionVerify r =
     (if Enabled r then (if RetainUntil r = 0 then Some RetentionInvalid else None)
      else (if RetainUntil r \<noteq> 0 then Some RetentionInvalid else None))"

text \<open>
  The column \<open>retention_mode\<close> packs the retention mode and the legal-hold bit
  (\<open>lockModeWrapper\<close>).
\<close>

record lockMode =
  retentionMode :: RetentionMode
  legalHold :: bool

subsection \<open>The two tables\<close>

record SegmentPosition =
  Part :: nat
  Index :: nat

record RedundancyScheme =
  Algorithm :: nat
  ShareSize :: int
  RequiredShares :: int
  RepairShares :: int
  OptimalShares :: int
  TotalShares :: int

definition RedundancyIsZero :: "RedundancyScheme \<Rightarrow> bool" where
  "RedundancyIsZero r \<longleftrightarrow>
     Algorithm r = 0 \<and> ShareSize r = 0 \<and> RequiredShares r = 0 \<and> RepairShares r = 0 \<and>
     OptimalShares r = 0 \<and> TotalShares r = 0"

record Piece =
  Number :: nat
  StorageNode :: nat

record AliasPiece =
  AliasNumber :: nat
  Alias :: nat

type_synonym Pieces = "Piece list"
type_synonym AliasPieces = "AliasPiece list"

record objects_row =
  project_id :: UUID
  bucket_name :: string
  object_key :: string
  version :: Version
  stream_id :: UUID
  status :: ObjectStatus
  created_at :: Time
  expires_at :: "Time option"
  segment_count :: int
  total_plain_size :: int
  total_encrypted_size :: int
  fixed_segment_size :: int
  encryption :: EncryptionParameters
  zombie_deletion_deadline :: "Time option"
  encrypted_user_data :: EncryptedUserData
  retention_mode :: lockMode
  retain_until :: Time

record segments_row =
  seg_stream_id :: UUID
  position :: SegmentPosition
  seg_expires_at :: "Time option"
  root_piece_id :: nat
  encrypted_key_nonce :: "nat list"
  encrypted_key :: "nat list"
  encrypted_size :: int
  plain_offset :: int
  plain_size :: int
  encrypted_etag :: "nat list"
  redundancy :: RedundancyScheme
  remote_alias_pieces :: "AliasPieces option"
  placement :: nat
  inline_data :: "nat list option"
  repaired_at :: "Time option"

record DB =
  objects :: "objects_row list"
  segments :: "segments_row list"

definition int32 :: "int \<Rightarrow> int" where
  "int32 x = (x + 2 ^ 31) mod 2 ^ 32 - 2 ^ 31"

text \<open>
  \<open>Object\<close> embeds \<open>ObjectStream\<close>; the embedded \<open>EncryptedUserData\<close> is the field
  \<open>UserData\<close>.
\<close>

record Object = ObjectStream +
  CreatedAt :: Time
  ExpiresAt :: "Time option"
  Status :: ObjectStatus
  SegmentCount :: int
  UserData :: EncryptedUserData
  TotalPlainSize :: int
  TotalEncryptedSize :: int
  FixedSegmentSize :: int
  Encryption :: EncryptionParameters
  ZombieDeletionDeadline :: "Time option"
  ObjRetention :: Retention
  LegalHold :: bool

record Config =
  MaxNumberOfParts :: int
  MinPartSize :: int

record ObjectLocation =
  locProjectID :: UUID
  locBucketName :: string
  locObjectKey :: string

record PrecommitConstraint =
  Location :: ObjectLocation
  pcVersioned :: bool
  pcDisallowDelete :: bool
  CheckExistence :: bool

record PrecommitConstraintResult =
  HighestVersion :: Version
  DeletedObjectCount :: int
  DeletedSegmentCount :: int

text \<open>
  Code of the repository that the operations call and that is not among the sources at
  hand is a parameter of the model: the field validators, the alias cache's
  \<open>EnsurePiecesToAliases\<close>, the two methods of \<open>IfNoneMatch\<close>, the precommit
  constraint evaluator, which runs inside the transaction and may delete rows, and, for
  the listing, the constant \<open>MaxVersion\<close> and the function \<open>PrefixLimit\<close>.
\<close>

record Helpers =
  ObjectStreamVerify :: "ObjectStream \<Rightarrow> error option"
  ObjectLocationVerify :: "ObjectLocation \<Rightarrow> error option"
  EncryptedUserDataVerify :: "EncryptedUserData \<Rightarrow> error option"
  PiecesVerify :: "Pieces \<Rightarrow> error option"
  IfNoneMatchVerify :: "string list \<Rightarrow> error option"
  IfNoneMatchAll :: "string list \<Rightarrow> bool"
  EnsurePiecesToAliases :: "Pieces \<Rightarrow> error + AliasPieces"
  RunPrecommitConstraint :: "PrecommitConstraint \<Rightarrow> DB \<Rightarrow> error + (PrecommitConstraintResult \<times> DB)"
  MaxVersion :: Version
  PrefixLimit :: "string \<Rightarrow> string"

text \<open>The method \<open>Location\<close> of \<open>ObjectStream\<close>, promoted to every request that embeds it.\<close>

definition LocationOf :: "'a ObjectStream_scheme \<Rightarrow> ObjectLocation" where
  "LocationOf opts =
     \<lparr>locProjectID = ProjectID opts, locBucketName = BucketName opts,
      locObjectKey = ObjectKey opts\<rparr>"

section \<open>CommitObject\<close>

record CommitObject = ObjectStream +
  coEncryption :: EncryptionParameters
  OverrideEncryptedMetadata :: bool
  coUserData :: EncryptedUserData
  DisallowDelete :: bool
  Versioned :: bool
  IfNoneMatch :: "string list"

definition CommitObjectVerify :: "Helpers \<Rightarrow> CommitObject \<Rightarrow> error option" where
  "CommitObjectVerify h c =
     (case ObjectStreamVerify h (ObjectStream.truncate c) of
        Some e \<Rightarrow> Some e
      | None \<Rightarrow>
          if CipherSuite (coEncryption c) \<noteq> EncUnspecified \<and> BlockSize (coEncryption c) \<le> 0
          then Some ErrInvalidRequest
          else
            (case (if OverrideEncryptedMetadata c
                   then EncryptedUserDataVerify h (coUserData c) else None) of
               Some e \<Rightarrow> Some e
             | None \<Rightarrow> IfNoneMatchVerify h (IfNoneMatch c)))"

text \<open>
  Modelled from the spec: \<open>segmentInfoForCommit\<close>, \<open>segmentToCommit\<close>,
  \<open>fetchSegmentsForCommit\<close>, \<open>convertToFinalSegments\<close>, \<open>updateSegmentOffsets\<close>
  and \<open>committedWhereVersioned\<close> are not among the sources at hand. Step 1 of commit-object
  fetches all segments of the stream ordered by position; step 3 computes the plain
  offset of each segment as the running sum and writes the offsets back.
\<close>

record segmentInfoForCommit =
  sicPosition :: SegmentPosition
  sicEncryptedSize :: int
  sicPlainOffset :: int
  sicPlainSize :: int

record segmentToCommit =
  stcPosition :: SegmentPosition
  OldPlainOffset :: int
  stcPlainOffset :: int
  stcPlainSize :: int
  stcEncryptedSize :: int

definition positionKey :: "SegmentPosition \<Rightarrow> nat \<times> nat" where
  "positionKey p = (Part p, Index p)"

definition fetchSegmentsForCommit :: "DB \<Rightarrow> UUID \<Rightarrow> segmentInfoForCommit list" where
  "fetchSegmentsForCommit db streamID =
     map (\<lambda>s. \<lparr>sicPosition = position s, sicEncryptedSize = encrypted_size s,
                sicPlainOffset = plain_offset s, sicPlainSize = plain_size s\<rparr>)
       (sort_key (\<lambda>s. positionKey (position s))
          (filter (\<lambda>s. seg_stream_id s = streamID) (segments db)))"

fun finalSegmentsFrom :: "int \<Rightarrow> segmentInfoForCommit list \<Rightarrow> segmentToCommit list" where
  "finalSegmentsFrom offset [] = []"
| "finalSegmentsFrom offset (s # ss) =
     \<lparr>stcPosition = sicPosition s, OldPlainOffset = sicPlainOffset s, stcPlainOffset = offset,
      stcPlainSize = sicPlainSize s, stcEncryptedSize = sicEncryptedSize s\<rparr>
     # finalSegmentsFrom (int64 (offset + sicPlainSize s)) ss"

definition convertToFinalSegments :: "segmentInfoForCommit list \<Rightarrow> segmentToCommit list" where
  "convertToFinalSegments segs = finalSegmentsFrom 0 segs"

definition updateSegmentOffsets :: "DB \<Rightarrow> UUID \<Rightarrow> segmentToCommit list \<Rightarrow> DB" where
  "updateSegmentOffsets db streamID updates =
     db\<lparr>segments :=
          fold (\<lambda>u rows.
                  map (\<lambda>s. if seg_stream_id s = streamID \<and> position s = stcPosition u
                            then s\<lparr>plain_offset := stcPlainOffset u\<rparr> else s) rows)
            updates (segments db)\<rparr>"

definition committedWhereVersioned :: "bool \<Rightarrow> ObjectStatus" where
  "committedWhereVersioned versioned =
     (if versioned then CommittedVersioned else CommittedUnversioned)"

text \<open>
  \<open>validateParts\<close>: the map \<open>partSize\<close> is the list of distinct part numbers with the
  sum of the plain sizes of each part; every failure has the class
  \<open>ErrFailedPrecondition\<close>, so the order in which Go walks the map does not show.
\<close>

definition partSizeOf :: "segmentInfoForCommit list \<Rightarrow> nat \<Rightarrow> int" where
  "partSizeOf segs p =
     fold (\<lambda>s acc. int64 (acc + sicPlainSize s))
       (filter (\<lambda>s. Part (sicPosition s) = p) segs) 0"

definition validateParts :: "Config \<Rightarrow> segmentInfoForCommit list \<Rightarrow> error option" where
  "validateParts cfg segs =
     (let parts = remdups (map (\<lambda>s. Part (sicPosition s)) segs);
          lastPart = fold max parts 0
      in if int (length parts) > MaxNumberOfParts cfg then Some ErrFailedPrecondition
         else if \<exists>p \<in> set parts. p \<noteq> lastPart \<and> partSizeOf segs p < MinPartSize cfg
              then Some ErrFailedPrecondition
         else None)"

text \<open>
  The loop that computes \<open>fixedSegmentSize\<close>: \<open>i\<close> is the loop index, \<open>n\<close> is
  \<open>len(finalSegments)\<close>, and \<open>break\<close> leaves the loop with the value \<open>-1\<close>.
\<close>

fun fixedSegmentSizeLoop :: "segmentToCommit list \<Rightarrow> nat \<Rightarrow> nat \<Rightarrow> int \<Rightarrow> int" where
  "fixedSegmentSizeLoop [] i n fixedSegmentSize = fixedSegmentSize"
| "fixedSegmentSizeLoop (seg # rest) i n fixedSegmentSize =
     (if Part (stcPosition seg) \<noteq> 0 \<or> Index (stcPosition seg) \<noteq> uint32 i then - 1
      else if int i < int n - 1 \<and> stcPlainSize seg \<noteq> fixedSegmentSize then - 1
      else fixedSegmentSizeLoop rest (Suc i) n fixedSegmentSize)"

definition computeFixedSegmentSize :: "segmentToCommit list \<Rightarrow> int" where
  "computeFixedSegmentSize finalSegments =
     (case finalSegments of
        [] \<Rightarrow> 0
      | first # _ \<Rightarrow>
          fixedSegmentSizeLoop finalSegments 0 (length finalSegments) (stcPlainSize first))"

definition nextVersionOf :: "Version \<Rightarrow> Version \<Rightarrow> Version" where
  "nextVersionOf optsVersion highestVersion =
     (if optsVersion < highestVersion then int64 (highestVersion + 1) else optsVersion)"

text \<open>
  \<open>finalizeObjectCommit\<close> of the relational adapter: one \<open>UPDATE ... RETURNING\<close> on the
  pending row. No row gives \<open>ErrObjectNotFound\<close>; a \<open>NULL\<close> encryption is a not-null
  violation and gives \<open>ErrInvalidRequest\<close>; a row already holding the new primary key
  is a unique violation, wrapped as \<open>Error\<close>.
\<close>

definition isPendingRowOf :: "'a ObjectStream_scheme \<Rightarrow> objects_row \<Rightarrow> bool" where
  "isPendingRowOf opts r \<longleftrightarrow>
     project_id r = ProjectID opts \<and> bucket_name r = BucketName opts \<and>
     object_key r = ObjectKey opts \<and> version r = Version opts \<and>
     stream_id r = StreamID opts \<and> status r = Pending"

definition finalizedRow ::
  "CommitObject \<Rightarrow> ObjectStatus \<Rightarrow> Version \<Rightarrow> int \<Rightarrow> int \<Rightarrow> int \<Rightarrow> int \<Rightarrow>
   objects_row \<Rightarrow> objects_row" where
  "finalizedRow opts nextStatus nextVersion count totalPlainSize totalEncryptedSize
     fixedSegmentSize r =
     r\<lparr>version := nextVersion,
       status := nextStatus,
       segment_count := count,
       total_plain_size := totalPlainSize,
       total_encrypted_size := totalEncryptedSize,
       fixed_segment_size := fixedSegmentSize,
       zombie_deletion_deadline := None,
       encryption := (if EncryptionIsZero (encryption r) then coEncryption opts
                      else encryption r),
       encrypted_user_data := (if OverrideEncryptedMetadata opts then coUserData opts
                               else encrypted_user_data r)\<rparr>"

definition finalizeObjectCommit ::
  "DB \<Rightarrow> CommitObject \<Rightarrow> ObjectStatus \<Rightarrow> Version \<Rightarrow> segmentInfoForCommit list \<Rightarrow>
   int \<Rightarrow> int \<Rightarrow> int \<Rightarrow> error + (Object \<times> DB)" where
  "finalizeObjectCommit db opts nextStatus nextVersion finalSegments totalPlainSize
     totalEncryptedSize fixedSegmentSize =
     (case filter (isPendingRowOf opts) (objects db) of
        [] \<Rightarrow> Inl ErrObjectNotFound
      | row # _ \<Rightarrow>
          if EncryptionIsZero (encryption row) \<and> EncryptionIsZero (coEncryption opts)
          then Inl ErrInvalidRequest
          else if \<exists>r \<in> set (objects db). \<not> isPendingRowOf opts r \<and>
                    project_id r = ProjectID opts \<and> bucket_name r = BucketName opts \<and>
                    object_key r = ObjectKey opts \<and> version r = nextVersion
          then Inl Error
          else
            (let upd = finalizedRow opts nextStatus nextVersion (int (length finalSegments))
                         totalPlainSize totalEncryptedSize fixedSegmentSize;
                 row' = upd row;
                 object = \<lparr>ProjectID = 0, BucketName = [], ObjectKey = [], Version = 0,
                           StreamID = 0,
                           CreatedAt = created_at row', ExpiresAt = expires_at row',
                           Status = Pending, SegmentCount = 0,
                           UserData = encrypted_user_data row',
                           TotalPlainSize = 0, TotalEncryptedSize = 0, FixedSegmentSize = 0,
                           Encryption = encryption row', ZombieDeletionDeadline = None,
                           ObjRetention = \<lparr>Mode = retentionMode (retention_mode row'),
                                           RetainUntil = retain_until row'\<rparr>,
                           LegalHold = legalHold (retention_mode row')\<rparr>
             in if RetentionVerify (ObjRetention object) \<noteq> None then Inl Error
                else if ExpiresAt object \<noteq> None \<and>
                        (LegalHold object \<or> Enabled (ObjRetention object))
                then Inl Error
                else Inr (object,
                          db\<lparr>objects := map (\<lambda>r. if isPendingRowOf opts r then upd r else r)
                                           (objects db)\<rparr>)))"

text \<open>The \<open>PrecommitConstraint\<close> argument that \<open>CommitObject\<close> builds.\<close>

definition commitObjectPrecommit :: "Helpers \<Rightarrow> CommitObject \<Rightarrow> PrecommitConstraint" where
  "commitObjectPrecommit h opts =
     \<lparr>Location = LocationOf opts,
      pcVersioned = Versioned opts,
      pcDisallowDelete = DisallowDelete opts,
      CheckExistence = IfNoneMatchAll h (IfNoneMatch opts)\<rparr>"

text \<open>
  \<open>DB.CommitObject\<close>. The closure passed to \<open>WithTx\<close> is one transaction: an error
  rolls it back, so a failed call leaves the database as it was and returns no state.
\<close>

definition CommitObject ::
  "Helpers \<Rightarrow> Config \<Rightarrow> DB \<Rightarrow> CommitObject \<Rightarrow> error + (Object \<times> DB)" where
  "CommitObject h cfg db opts =
     (case CommitObjectVerify h opts of
        Some e \<Rightarrow> Inl e
      | None \<Rightarrow>
          (let segs = fetchSegmentsForCommit db (StreamID opts) in
           case validateParts cfg segs of
             Some e \<Rightarrow> Inl e
           | None \<Rightarrow>
               (let finalSegments = convertToFinalSegments segs;
                    db1 = updateSegmentOffsets db (StreamID opts) finalSegments;
                    fixedSegmentSize = computeFixedSegmentSize finalSegments;
                    totalPlainSize =
                      fold (\<lambda>seg acc. int64 (acc + stcPlainSize seg)) finalSegments 0;
                    totalEncryptedSize =
                      fold (\<lambda>seg acc. int64 (acc + stcEncryptedSize seg)) finalSegments 0;
                    nextStatus = committedWhereVersioned (Versioned opts)
                in case RunPrecommitConstraint h (commitObjectPrecommit h opts) db1 of
                     Inl e \<Rightarrow> Inl e
                   | Inr (precommit, db2) \<Rightarrow>
                       (let nextVersion = nextVersionOf (Version opts) (HighestVersion precommit)
                        in case finalizeObjectCommit db2 opts nextStatus nextVersion segs
                                  totalPlainSize totalEncryptedSize fixedSegmentSize of
                             Inl e \<Rightarrow> Inl e
                           | Inr (object, db3) \<Rightarrow>
                               Inr (object\<lparr>StreamID := StreamID opts,
                                           ProjectID := ProjectID opts,
                                           BucketName := BucketName opts,
                                           ObjectKey := ObjectKey opts,
                                           Version := nextVersion,
                                           Status := nextStatus,
                                           SegmentCount := int32 (int (length segs)),
                                           TotalPlainSize := totalPlainSize,
                                           TotalEncryptedSize := totalEncryptedSize,
                                           FixedSegmentSize := fixedSegmentSize\<rparr>, db3)))))"

text \<open>
  The spec's words for step 4: the positions form the contiguous sequence
  \<open>(part = 0, index = i)\<close>, and all segments but the last share one plain size.
\<close>

definition contiguousPositions :: "segmentInfoForCommit list \<Rightarrow> bool" where
  "contiguousPositions segs \<longleftrightarrow>
     (\<forall>i < length segs. Part (sicPosition (segs ! i)) = 0 \<and> Index (sicPosition (segs ! i)) = i)"

definition nonLastShareSize :: "segmentInfoForCommit list \<Rightarrow> int \<Rightarrow> bool" where
  "nonLastShareSize segs s \<longleftrightarrow> (\<forall>i. i + 1 < length segs \<longrightarrow> sicPlainSize (segs ! i) = s)"

text \<open>Projections of a result, to state facts about a concrete run.\<close>

definition committedVersion :: "error + (Object \<times> DB) \<Rightarrow> Version option" where
  "committedVersion r = (case r of Inl e \<Rightarrow> None | Inr (obj, db) \<Rightarrow> Some (Version obj))"

definition precommitHighest ::
  "error + (PrecommitConstraintResult \<times> DB) \<Rightarrow> Version option" where
  "precommitHighest r = (case r of Inl e \<Rightarrow> None | Inr (pre, db) \<Rightarrow> Some (HighestVersion pre))"

section \<open>Retention setters\<close>

text \<open>
  Modelled from the spec: \<open>ObjectStatus.IsCommitted\<close> and the SQL constant
  \<open>statusesCommitted\<close> are not among the sources at hand; "committed" means either
  of the two committed states.
\<close>

definition IsCommitted :: "ObjectStatus \<Rightarrow> bool" where
  "IsCommitted s \<longleftrightarrow> s = CommittedUnversioned \<or> s = CommittedVersioned"

record preUpdateRetentionInfo =
  infoStatus :: ObjectStatus
  infoExpiresAt :: "Time option"
  infoRetention :: Retention

text \<open>
  \<open>verifyWithoutStatus\<close> and \<open>verify\<close>. The current instant, which \<open>Active\<close>
  reads from the clock, is the argument \<open>now\<close>. \<open>errs.Wrap\<close> keeps the class of
  the error it wraps.
\<close>

definition verifyWithoutStatus ::
  "Time \<Rightarrow> preUpdateRetentionInfo \<Rightarrow> Retention \<Rightarrow> error option" where
  "verifyWithoutStatus now info newRetention =
     (if infoExpiresAt info \<noteq> None then Some ErrObjectExpiration
      else
        (case RetentionVerify (infoRetention info) of
           Some e \<Rightarrow> Some e
         | None \<Rightarrow>
             if Active now (infoRetention info) then
               (if \<not> Enabled newRetention then Some ErrObjectLock
                else if RetainUntil newRetention < RetainUntil (infoRetention info)
                then Some ErrObjectLock
                else None)
             else None))"

definition verify :: "Time \<Rightarrow> preUpdateRetentionInfo \<Rightarrow> Retention \<Rightarrow> error option" where
  "verify now info newRetention =
     (if \<not> IsCommitted (infoStatus info) then Some ErrObjectStatus
      else verifyWithoutStatus now info newRetention)"

record SetObjectExactVersionRetention =
  sevLocation :: ObjectLocation
  sevVersion :: Version
  sevRetention :: Retention

record SetObjectLastCommittedRetention =
  slcLocation :: ObjectLocation
  slcRetention :: Retention

definition atLocation :: "ObjectLocation \<Rightarrow> objects_row \<Rightarrow> bool" where
  "atLocation loc r \<longleftrightarrow>
     project_id r = locProjectID loc \<and> bucket_name r = locBucketName loc \<and>
     object_key r = locObjectKey loc"

text \<open>
  The \<open>UPDATE\<close> of \<open>setObjectExactVersionRetention\<close>. It writes the whole column
  \<open>retention_mode\<close> from the new mode alone, so the legal-hold bit packed into that
  column is not carried over. No affected row gives \<open>ErrObjectNotFound\<close>.
\<close>

definition setObjectExactVersionRetention ::
  "DB \<Rightarrow> SetObjectExactVersionRetention \<Rightarrow> error + DB" where
  "setObjectExactVersionRetention db opts =
     (let hit = (\<lambda>r. atLocation (sevLocation opts) r \<and> version r = sevVersion opts)
      in if filter hit (objects db) = [] then Inl ErrObjectNotFound
         else Inr (db\<lparr>objects :=
                        map (\<lambda>r. if hit r
                                  then r\<lparr>retention_mode :=
                                          \<lparr>retentionMode = Mode (sevRetention opts),
                                           legalHold = False\<rparr>,
                                         retain_until := RetainUntil (sevRetention opts)\<rparr>
                                  else r) (objects db)\<rparr>))"

text \<open>
  What "the retention is written" means for the table: the rows of version \<open>v\<close> at the
  location carry the new mode and the new retain-until, every other row is as before,
  and no row is added or removed.
\<close>

definition retentionWritten :: "DB \<Rightarrow> ObjectLocation \<Rightarrow> Version \<Rightarrow> Retention \<Rightarrow> DB" where
  "retentionWritten db loc v new =
     db\<lparr>objects :=
          map (\<lambda>r. if atLocation loc r \<and> version r = v
                    then r\<lparr>retention_mode := \<lparr>retentionMode = Mode new, legalHold = False\<rparr>,
                           retain_until := RetainUntil new\<rparr>
                    else r) (objects db)\<rparr>"

definition infoOfRow :: "objects_row \<Rightarrow> preUpdateRetentionInfo" where
  "infoOfRow r =
     \<lparr>infoStatus = status r, infoExpiresAt = expires_at r,
      infoRetention = \<lparr>Mode = retentionMode (retention_mode r), RetainUntil = retain_until r\<rparr>\<rparr>"

definition SetObjectExactVersionRetention ::
  "Helpers \<Rightarrow> Time \<Rightarrow> DB \<Rightarrow> SetObjectExactVersionRetention \<Rightarrow> error + DB" where
  "SetObjectExactVersionRetention h now db opts =
     (case ObjectLocationVerify h (sevLocation opts) of
        Some e \<Rightarrow> Inl e
      | None \<Rightarrow>
          if RetentionVerify (sevRetention opts) \<noteq> None then Inl ErrInvalidRequest
          else
            (case filter (\<lambda>r. atLocation (sevLocation opts) r \<and> version r = sevVersion opts)
                    (objects db) of
               [] \<Rightarrow> Inl ErrObjectNotFound
             | row # _ \<Rightarrow>
                 (case verify now (infoOfRow row) (sevRetention opts) of
                    Some e \<Rightarrow> Inl e
                  | None \<Rightarrow> setObjectExactVersionRetention db opts)))"

text \<open>
  \<open>SetObjectLastCommittedRetention\<close> reads the committed row of the highest version
  (\<open>ORDER BY version DESC LIMIT 1\<close>); the status is not read, so the info it verifies
  carries the zero status and only \<open>verifyWithoutStatus\<close> is applied.
\<close>

definition lastCommittedRow :: "DB \<Rightarrow> ObjectLocation \<Rightarrow> objects_row option" where
  "lastCommittedRow db loc =
     (case sort_key (\<lambda>r. - version r)
             (filter (\<lambda>r. atLocation loc r \<and> IsCommitted (status r)) (objects db)) of
        [] \<Rightarrow> None
      | row # _ \<Rightarrow> Some row)"

definition SetObjectLastCommittedRetention ::
  "Helpers \<Rightarrow> Time \<Rightarrow> DB \<Rightarrow> SetObjectLastCommittedRetention \<Rightarrow> error + DB" where
  "SetObjectLastCommittedRetention h now db opts =
     (case ObjectLocationVerify h (slcLocation opts) of
        Some e \<Rightarrow> Inl e
      | None \<Rightarrow>
          if RetentionVerify (slcRetention opts) \<noteq> None then Inl ErrInvalidRequest
          else
            (case lastCommittedRow db (slcLocation opts) of
               None \<Rightarrow> Inl ErrObjectNotFound
             | Some row \<Rightarrow>
                 (case verifyWithoutStatus now (infoOfRow row) (slcRetention opts) of
                    Some e \<Rightarrow> Inl e
                  | None \<Rightarrow>
                      setObjectExactVersionRetention db
                        \<lparr>sevLocation = slcLocation opts, sevVersion = version row,
                         sevRetention = slcRetention opts\<rparr>)))"

section \<open>BeginObjectNextVersion\<close>

record BeginObjectNextVersion = ObjectStream +
  bnExpiresAt :: "Time option"
  bnZombieDeletionDeadline :: "Time option"
  bnUserData :: EncryptedUserData
  bnEncryption :: EncryptionParameters
  bnRetention :: Retention
  bnLegalHold :: bool

text \<open>\<open>defaultZombieDeletionPeriod\<close>: 24 hours, in nanoseconds as a \<open>time.Duration\<close>.\<close>

definition defaultZombieDeletionPeriod :: int where
  "defaultZombieDeletionPeriod = 24 * 60 * 60 * 1000000000"

definition BeginObjectNextVersionVerify ::
  "Helpers \<Rightarrow> BeginObjectNextVersion \<Rightarrow> error option" where
  "BeginObjectNextVersionVerify h opts =
     (case ObjectStreamVerify h (ObjectStream.truncate opts) of
        Some e \<Rightarrow> Some e
      | None \<Rightarrow>
          if Version opts \<noteq> NextVersion then Some ErrInvalidRequest
          else
            (case EncryptedUserDataVerify h (bnUserData opts) of
               Some e \<Rightarrow> Some e
             | None \<Rightarrow>
                 if RetentionVerify (bnRetention opts) \<noteq> None then Some ErrInvalidRequest
                 else if bnExpiresAt opts \<noteq> None \<and> Enabled (bnRetention opts)
                 then Some ErrInvalidRequest
                 else if bnExpiresAt opts \<noteq> None \<and> bnLegalHold opts
                 then Some ErrInvalidRequest
                 else None))"

text \<open>
  The sub-select of the \<open>INSERT\<close>: \<open>version + 1\<close> of the row with the highest version
  at the location (\<open>ORDER BY version DESC LIMIT 1\<close>), \<open>NULL\<close> when the location has
  no row; \<open>coalesce\<close> turns \<open>NULL\<close> into 1.
\<close>

definition highestVersionPlusOne :: "DB \<Rightarrow> ObjectLocation \<Rightarrow> Version option" where
  "highestVersionPlusOne db loc =
     (case sort_key (\<lambda>r. - version r) (filter (atLocation loc) (objects db)) of
        [] \<Rightarrow> None
      | r # _ \<Rightarrow> Some (version r + 1))"

definition coalesce :: "'a option \<Rightarrow> 'a \<Rightarrow> 'a" where
  "coalesce x d = (case x of None \<Rightarrow> d | Some v \<Rightarrow> v)"

text \<open>
  The \<open>INSERT ... RETURNING status, version, created_at\<close> of the relational adapter.
  SQL integer arithmetic does not wrap: a \<open>version + 1\<close> beyond the 64-bit range makes
  the statement fail. Modelled from the spec: the column defaults are in the schema, which
  is not among the sources at hand; the inserted row is a pending row, created at the
  current instant, with zero totals.
\<close>

definition insertPendingObject ::
  "Time \<Rightarrow> DB \<Rightarrow> BeginObjectNextVersion \<Rightarrow> error + ((ObjectStatus \<times> Version \<times> Time) \<times> DB)"
  where
  "insertPendingObject now db opts =
     (let v = coalesce (highestVersionPlusOne db (LocationOf opts)) 1
      in if v > 2 ^ 63 - 1 then Inl Error
         else
           (let row = \<lparr>project_id = ProjectID opts, bucket_name = BucketName opts,
                       object_key = ObjectKey opts, version = v, stream_id = StreamID opts,
                       status = Pending, created_at = now, expires_at = bnExpiresAt opts,
                       segment_count = 0, total_plain_size = 0, total_encrypted_size = 0,
                       fixed_segment_size = 0, encryption = bnEncryption opts,
                       zombie_deletion_deadline = bnZombieDeletionDeadline opts,
                       encrypted_user_data = bnUserData opts,
                       retention_mode = \<lparr>retentionMode = Mode (bnRetention opts),
                                         legalHold = bnLegalHold opts\<rparr>,
                       retain_until = RetainUntil (bnRetention opts)\<rparr>
            in Inr ((status row, version row, created_at row),
                    db\<lparr>objects := objects db @ [row]\<rparr>)))"

text \<open>
  \<open>DB.BeginObjectNextVersion\<close>: any failure of the adapter is wrapped as \<open>Error\<close>.
\<close>

definition BeginObjectNextVersion ::
  "Helpers \<Rightarrow> Time \<Rightarrow> DB \<Rightarrow> BeginObjectNextVersion \<Rightarrow> error + (Object \<times> DB)" where
  "BeginObjectNextVersion h now db opts0 =
     (case BeginObjectNextVersionVerify h opts0 of
        Some e \<Rightarrow> Inl e
      | None \<Rightarrow>
          (let opts = (if bnZombieDeletionDeadline opts0 = None
                       then opts0\<lparr>bnZombieDeletionDeadline :=
                                    Some (now + defaultZombieDeletionPeriod)\<rparr>
                       else opts0);
               object = \<lparr>ProjectID = ProjectID opts, BucketName = BucketName opts,
                         ObjectKey = ObjectKey opts, Version = 0, StreamID = StreamID opts,
                         CreatedAt = 0, ExpiresAt = bnExpiresAt opts, Status = Pending,
                         SegmentCount = 0,
                         UserData = \<lparr>EncryptedMetadata = [], EncryptedMetadataNonce = [],
                                      EncryptedMetadataEncryptedKey = [], EncryptedETag = []\<rparr>,
                         TotalPlainSize = 0, TotalEncryptedSize = 0, FixedSegmentSize = 0,
                         Encryption = bnEncryption opts,
                         ZombieDeletionDeadline = bnZombieDeletionDeadline opts,
                         ObjRetention = bnRetention opts, LegalHold = bnLegalHold opts\<rparr>
           in case insertPendingObject now db opts of
                Inl e \<Rightarrow> Inl Error
              | Inr ((st, v, created), db') \<Rightarrow>
                  Inr (object\<lparr>Status := st, Version := v, CreatedAt := created\<rparr>, db')))"

text \<open>The spec's words: the maximum of the versions present at the location.\<close>

definition versionsAt :: "DB \<Rightarrow> ObjectLocation \<Rightarrow> Version set" where
  "versionsAt db loc = set (map version (filter (atLocation loc) (objects db)))"

section \<open>Segments: CommitSegment and UpdateSegmentPieces\<close>

text \<open>
  Modelled from the spec: the database encoding of an alias piece-set
  (\<open>AliasPieces.Value\<close> and \<open>Scan\<close>) and \<open>EqualAliasPieces\<close> are not among the
  sources at hand. An inline segment has a null piece-set (spec 4.4); a piece-set is
  written as its sequence of (piece number, alias) pairs, the empty one as \<open>NULL\<close>, and
  a \<open>NULL\<close> column is read back as Go's \<open>nil\<close> slice, which is the empty list here.
  Two piece-sets are equal when they hold the same pairs in the same order.
\<close>

definition aliasPiecesValue :: "AliasPieces \<Rightarrow> AliasPieces option" where
  "aliasPiecesValue ps = (if ps = [] then None else Some ps)"

definition aliasPiecesScan :: "AliasPieces option \<Rightarrow> AliasPieces" where
  "aliasPiecesScan col = (case col of None \<Rightarrow> [] | Some ps \<Rightarrow> ps)"

definition EqualAliasPieces :: "AliasPieces \<Rightarrow> AliasPieces \<Rightarrow> bool" where
  "EqualAliasPieces xs ys \<longleftrightarrow> xs = ys"

subsection \<open>CommitSegment\<close>

record CommitSegment = ObjectStream +
  csPosition :: SegmentPosition
  RootPieceID :: nat
  csExpiresAt :: "Time option"
  EncryptedKeyNonce :: "nat list"
  EncryptedKey :: "nat list"
  PlainOffset :: int
  PlainSize :: int
  EncryptedSize :: int
  csEncryptedETag :: "nat list"
  Redundancy :: RedundancyScheme
  Pieces :: Pieces
  Placement :: nat

definition ValidatePlainSize :: bool where
  "ValidatePlainSize = False"

text \<open>
  \<open>CommitPendingObjectSegment\<close> of the relational adapter, one \<open>INSERT ... ON CONFLICT
  (stream_id, position) DO UPDATE\<close>. The value for \<open>stream_id\<close> is a scalar
  sub-select on \<open>objects\<close>: no pending row gives \<open>NULL\<close>, a not-null violation,
  which the adapter turns into \<open>ErrPendingObjectMissing\<close>; more than one row is an SQL
  error, wrapped as \<open>Error\<close>. On conflict the columns of the \<open>SET\<close> list are written
  and \<open>inline_data\<close> is cleared; a column outside that list (\<open>repaired_at\<close>) keeps its
  value. A new row gets the defaults for the columns the statement does not name.
\<close>

definition committedSegmentColumns ::
  "CommitSegment \<Rightarrow> AliasPieces \<Rightarrow> segments_row \<Rightarrow> segments_row" where
  "committedSegmentColumns opts aliasPieces s =
     s\<lparr>seg_expires_at := csExpiresAt opts,
       root_piece_id := RootPieceID opts,
       encrypted_key_nonce := EncryptedKeyNonce opts,
       encrypted_key := EncryptedKey opts,
       encrypted_size := EncryptedSize opts,
       plain_offset := PlainOffset opts,
       plain_size := PlainSize opts,
       encrypted_etag := csEncryptedETag opts,
       redundancy := Redundancy opts,
       remote_alias_pieces := aliasPiecesValue aliasPieces,
       placement := Placement opts,
       inline_data := None\<rparr>"

definition newSegmentRow :: "UUID \<Rightarrow> SegmentPosition \<Rightarrow> segments_row" where
  "newSegmentRow sid pos =
     \<lparr>seg_stream_id = sid, position = pos, seg_expires_at = None, root_piece_id = 0,
      encrypted_key_nonce = [], encrypted_key = [], encrypted_size = 0, plain_offset = 0,
      plain_size = 0, encrypted_etag = [],
      redundancy = \<lparr>Algorithm = 0, ShareSize = 0, RequiredShares = 0, RepairShares = 0,
                     OptimalShares = 0, TotalShares = 0\<rparr>,
      remote_alias_pieces = None, placement = 0, inline_data = None, repaired_at = None\<rparr>"

definition segmentAt :: "UUID \<Rightarrow> SegmentPosition \<Rightarrow> segments_row \<Rightarrow> bool" where
  "segmentAt sid pos s \<longleftrightarrow> seg_stream_id s = sid \<and> position s = pos"

definition CommitPendingObjectSegment ::
  "DB \<Rightarrow> CommitSegment \<Rightarrow> AliasPieces \<Rightarrow> error + DB" where
  "CommitPendingObjectSegment db opts aliasPieces =
     (case filter (isPendingRowOf opts) (objects db) of
        [] \<Rightarrow> Inl ErrPendingObjectMissing
      | [parent] \<Rightarrow>
          (let hit = segmentAt (stream_id parent) (csPosition opts)
           in if \<exists>s \<in> set (segments db). hit s
              then Inr (db\<lparr>segments :=
                              map (\<lambda>s. if hit s then committedSegmentColumns opts aliasPieces s
                                        else s) (segments db)\<rparr>)
              else Inr (db\<lparr>segments :=
                              segments db @
                              [committedSegmentColumns opts aliasPieces
                                 (newSegmentRow (stream_id parent) (csPosition opts))]\<rparr>))
      | _ \<Rightarrow> Inl Error)"

text \<open>
  The checks of \<open>DB.CommitSegment\<close> that come before the statement, in the order of the
  source, then the alias conversion and the statement.
\<close>

definition CommitSegmentVerify :: "Helpers \<Rightarrow> CommitSegment \<Rightarrow> error option" where
  "CommitSegmentVerify h opts =
     (case ObjectStreamVerify h (ObjectStream.truncate opts) of
        Some e \<Rightarrow> Some e
      | None \<Rightarrow>
          (case PiecesVerify h (Pieces opts) of
             Some e \<Rightarrow> Some e
           | None \<Rightarrow>
               if RootPieceID opts = 0 then Some ErrInvalidRequest
               else if length (EncryptedKey opts) = 0 then Some ErrInvalidRequest
               else if length (EncryptedKeyNonce opts) = 0 then Some ErrInvalidRequest
               else if EncryptedSize opts \<le> 0 then Some ErrInvalidRequest
               else if PlainSize opts \<le> 0 \<and> ValidatePlainSize then Some ErrInvalidRequest
               else if PlainOffset opts < 0 then Some ErrInvalidRequest
               else if RedundancyIsZero (Redundancy opts) then Some ErrInvalidRequest
               else if int (length (Pieces opts)) < OptimalShares (Redundancy opts)
               then Some ErrInvalidRequest
               else None))"

definition CommitSegment :: "Helpers \<Rightarrow> DB \<Rightarrow> CommitSegment \<Rightarrow> error + DB" where
  "CommitSegment h db opts =
     (case CommitSegmentVerify h opts of
        Some e \<Rightarrow> Inl e
      | None \<Rightarrow>
          (case EnsurePiecesToAliases h (Pieces opts) of
             Inl e \<Rightarrow> Inl Error
           | Inr aliasPieces \<Rightarrow>
               (case CommitPendingObjectSegment db opts aliasPieces of
                  Inl e \<Rightarrow> if e = ErrPendingObjectMissing then Inl e else Inl Error
                | Inr db' \<Rightarrow> Inr db')))"

subsection \<open>UpdateSegmentPieces\<close>

record UpdateSegmentPieces =
  DBAdapterName :: string
  uspStreamID :: UUID
  uspPosition :: SegmentPosition
  OldPieces :: Pieces
  NewRedundancy :: RedundancyScheme
  NewPieces :: Pieces
  NewRepairedAt :: Time

text \<open>
  The \<open>UPDATE ... RETURNING remote_alias_pieces\<close> of the relational adapter. Every
  \<open>CASE\<close> reads the row as it was before the statement; a \<open>NULL\<close> column is equal to
  nothing. No row gives \<open>ErrSegmentNotFound\<close>. The statement has run when the adapter
  returns, so the database after it is part of the result in every case.
\<close>

definition piecesMatch :: "segments_row \<Rightarrow> AliasPieces \<Rightarrow> bool" where
  "piecesMatch s oldPieces \<longleftrightarrow>
     remote_alias_pieces s \<noteq> None \<and> remote_alias_pieces s = aliasPiecesValue oldPieces"

definition updatedPiecesRow ::
  "UpdateSegmentPieces \<Rightarrow> AliasPieces \<Rightarrow> AliasPieces \<Rightarrow> segments_row \<Rightarrow> segments_row" where
  "updatedPiecesRow opts oldPieces newPieces s =
     (let updateRepairAt = (NewRepairedAt opts \<noteq> 0)
      in s\<lparr>remote_alias_pieces :=
              (if piecesMatch s oldPieces then aliasPiecesValue newPieces
               else remote_alias_pieces s),
            redundancy :=
              (if piecesMatch s oldPieces then NewRedundancy opts else redundancy s),
            repaired_at :=
              (if piecesMatch s oldPieces \<and> updateRepairAt then Some (NewRepairedAt opts)
               else repaired_at s)\<rparr>)"

definition adapterUpdateSegmentPieces ::
  "DB \<Rightarrow> UpdateSegmentPieces \<Rightarrow> AliasPieces \<Rightarrow> AliasPieces \<Rightarrow> (error + AliasPieces) \<times> DB"
  where
  "adapterUpdateSegmentPieces db opts oldPieces newPieces =
     (let hit = segmentAt (uspStreamID opts) (uspPosition opts);
          upd = updatedPiecesRow opts oldPieces newPieces
      in case filter hit (segments db) of
           [] \<Rightarrow> (Inl ErrSegmentNotFound, db)
         | s # _ \<Rightarrow>
             (Inr (aliasPiecesScan (remote_alias_pieces (upd s))),
              db\<lparr>segments := map (\<lambda>s. if hit s then upd s else s) (segments db)\<rparr>))"

text \<open>
  The loop over \<open>db.adapters\<close>: an adapter is tried when no adapter name is given or the
  name is its own; \<open>ErrSegmentNotFound\<close> moves on to the next adapter, any other error
  returns, and the first adapter that holds the segment ends the loop. \<open>resultPieces\<close> is
  \<open>nil\<close> (the empty list) when no adapter was tried or the last one tried did not hold
  the segment.
\<close>

fun tryAdapters ::
  "UpdateSegmentPieces \<Rightarrow> AliasPieces \<Rightarrow> AliasPieces \<Rightarrow> (string \<times> DB) list \<Rightarrow>
   (error + AliasPieces) \<times> (string \<times> DB) list" where
  "tryAdapters opts oldPieces newPieces [] = (Inr [], [])"
| "tryAdapters opts oldPieces newPieces ((name, db) # rest) =
     (if DBAdapterName opts = [] \<or> DBAdapterName opts = name then
        (case adapterUpdateSegmentPieces db opts oldPieces newPieces of
           (Inl e, db') \<Rightarrow>
             if e = ErrSegmentNotFound then
               (case tryAdapters opts oldPieces newPieces rest of
                  (r, rest') \<Rightarrow> (r, (name, db') # rest'))
             else (Inl e, (name, db') # rest)
         | (Inr resultPieces, db') \<Rightarrow> (Inr resultPieces, (name, db') # rest))
      else
        (case tryAdapters opts oldPieces newPieces rest of
           (r, rest') \<Rightarrow> (r, (name, db) # rest')))"

definition UpdateSegmentPiecesVerify :: "Helpers \<Rightarrow> UpdateSegmentPieces \<Rightarrow> error option" where
  "UpdateSegmentPiecesVerify h opts =
     (if uspStreamID opts = 0 then Some ErrInvalidRequest
      else
        (case PiecesVerify h (OldPieces opts) of
           Some e \<Rightarrow> Some e
         | None \<Rightarrow>
             if RedundancyIsZero (NewRedundancy opts) then Some ErrInvalidRequest
             else if int (length (NewPieces opts)) < RepairShares (NewRedundancy opts)
             then Some ErrInvalidRequest
             else PiecesVerify h (NewPieces opts)))"

definition UpdateSegmentPieces ::
  "Helpers \<Rightarrow> (string \<times> DB) list \<Rightarrow> UpdateSegmentPieces \<Rightarrow>
   error option \<times> (string \<times> DB) list" where
  "UpdateSegmentPieces h adapters opts =
     (case UpdateSegmentPiecesVerify h opts of
        Some e \<Rightarrow> (Some e, adapters)
      | None \<Rightarrow>
          (case EnsurePiecesToAliases h (OldPieces opts) of
             Inl e \<Rightarrow> (Some Error, adapters)
           | Inr oldPieces \<Rightarrow>
               (case EnsurePiecesToAliases h (NewPieces opts) of
                  Inl e \<Rightarrow> (Some Error, adapters)
                | Inr newPieces \<Rightarrow>
                    (case tryAdapters opts oldPieces newPieces adapters of
                       (Inl e, adapters') \<Rightarrow> (Some e, adapters')
                     | (Inr resultPieces, adapters') \<Rightarrow>
                         if resultPieces = [] then (Some ErrSegmentNotFound, adapters')
                         else if \<not> EqualAliasPieces newPieces resultPieces
                         then (Some ErrValueChanged, adapters')
                         else (None, adapters')))))"

text \<open>
  Names for the statements about \<open>UpdateSegmentPieces\<close>: an adapter is eligible when the
  loop tries it, \<open>segmentRowsOf\<close> are the rows the statement's \<open>WHERE\<close> selects, and
  \<open>writePieces\<close> is the database after the statement.
\<close>

definition eligible :: "UpdateSegmentPieces \<Rightarrow> string \<Rightarrow> bool" where
  "eligible opts name \<longleftrightarrow> DBAdapterName opts = [] \<or> DBAdapterName opts = name"

definition segmentRowsOf :: "UpdateSegmentPieces \<Rightarrow> DB \<Rightarrow> segments_row list" where
  "segmentRowsOf opts db = filter (segmentAt (uspStreamID opts) (uspPosition opts)) (segments db)"

definition writePieces ::
  "UpdateSegmentPieces \<Rightarrow> AliasPieces \<Rightarrow> AliasPieces \<Rightarrow> DB \<Rightarrow> DB" where
  "writePieces opts oldPieces newPieces db =
     db\<lparr>segments :=
          map (\<lambda>s. if segmentAt (uspStreamID opts) (uspPosition opts) s
                    then updatedPiecesRow opts oldPieces newPieces s else s) (segments db)\<rparr>"


text \<open>
  The primary key of \<open>objects\<close> is \<open>(project_id, bucket_name, object_key, version)\<close>;
  a table is well formed when no two rows share it.
\<close>

definition objectsKey :: "objects_row \<Rightarrow> UUID \<times> string \<times> string \<times> Version" where
  "objectsKey r = (project_id r, bucket_name r, object_key r, version r)"

definition objectsKeyUnique :: "DB \<Rightarrow> bool" where
  "objectsKeyUnique db \<longleftrightarrow> distinct (map objectsKey (objects db))"

text \<open>
  What the spec expects of the validators and of the alias cache: a validation failure
  has the class \<open>ErrInvalidRequest\<close>, and the aliased vector has one entry per piece.
\<close>

definition validatorsInvalidRequest :: "Helpers \<Rightarrow> bool" where
  "validatorsInvalidRequest h \<longleftrightarrow>
     (\<forall>os. ObjectStreamVerify h os = None \<or> ObjectStreamVerify h os = Some ErrInvalidRequest) \<and>
     (\<forall>ps. PiecesVerify h ps = None \<or> PiecesVerify h ps = Some ErrInvalidRequest)"

definition aliasesKeepLength :: "Helpers \<Rightarrow> bool" where
  "aliasesKeepLength h \<longleftrightarrow>
     (\<forall>ps as. EnsurePiecesToAliases h ps = Inr as \<longrightarrow> length as = length ps)"

section \<open>ListObjects\<close>

text \<open>\<open>Delimiter\<close> is the byte \<open>/\<close>; \<open>DelimiterNext\<close> is the string that comes right after it.\<close>

definition Delimiter :: char where
  "Delimiter = CHR ''/''"

definition DelimiterNext :: string where
  "DelimiterNext = ''0''"

record ListObjectsCursor =
  curKey :: string
  curVersion :: Version

record ListObjectsParams =
  VersionSkipRequery :: int
  PrefixSkipRequery :: int
  QueryExtraForNonRecursive :: int
  MinBatchSize :: int

record ListObjects =
  loProjectID :: UUID
  loBucketName :: string
  Recursive :: bool
  Limit :: int
  loPrefix :: string
  Cursor :: ListObjectsCursor
  loPending :: bool
  AllVersions :: bool
  IncludeCustomMetadata :: bool
  IncludeSystemMetadata :: bool
  Unversioned :: bool
  Params :: ListObjectsParams

record ObjectEntry =
  IsPrefix :: bool
  entObjectKey :: string
  entVersion :: Version
  entStreamID :: UUID
  entCreatedAt :: Time
  entExpiresAt :: "Time option"
  entStatus :: ObjectStatus
  entSegmentCount :: int
  entUserData :: EncryptedUserData
  entTotalPlainSize :: int
  entTotalEncryptedSize :: int
  entFixedSegmentSize :: int
  entEncryption :: EncryptionParameters
  IsLatest :: bool

record ListObjectsResult =
  Objects :: "ObjectEntry list"
  More :: bool

text \<open>
  Modelled from the spec: \<open>ObjectStatus.IsDeleteMarker\<close> and \<open>LessObjectKey\<close> are not
  among the sources at hand. The delete markers are the two delete-marker statuses; keys
  are ordered lexicographically, byte by byte.
\<close>

definition IsDeleteMarker :: "ObjectStatus \<Rightarrow> bool" where
  "IsDeleteMarker s \<longleftrightarrow> s = DeleteMarkerVersioned \<or> s = DeleteMarkerUnversioned"

definition LessObjectKey :: "string \<Rightarrow> string \<Rightarrow> bool" where
  "LessObjectKey a b \<longleftrightarrow> a < b"

text \<open>\<open>strings.IndexByte\<close> (\<open>None\<close> for -1) and \<open>strings.HasPrefix\<close>.\<close>

fun IndexByte :: "string \<Rightarrow> char \<Rightarrow> nat option" where
  "IndexByte [] c = None"
| "IndexByte (x # xs) c =
     (if x = c then Some 0 else map_option Suc (IndexByte xs c))"

definition HasPrefix :: "string \<Rightarrow> string \<Rightarrow> bool" where
  "HasPrefix s p \<longleftrightarrow> take (length p) s = p"

definition VersionAscending :: "ListObjects \<Rightarrow> bool" where
  "VersionAscending opts \<longleftrightarrow> loPending opts \<or> Unversioned opts"

definition FirstVersion :: "Helpers \<Rightarrow> ListObjects \<Rightarrow> Version" where
  "FirstVersion h opts = (if VersionAscending opts then 0 else MaxVersion h)"

definition lastVersion :: "Helpers \<Rightarrow> ListObjects \<Rightarrow> Version" where
  "lastVersion h opts = (if VersionAscending opts then MaxVersion h else 0)"

definition entryKeyMatchesCursor :: "string \<Rightarrow> string \<Rightarrow> string \<Rightarrow> bool" where
  "entryKeyMatchesCursor prefix entryKey cursorKey \<longleftrightarrow>
     length prefix + length entryKey = length cursorKey \<and>
     prefix = take (length prefix) cursorKey \<and>
     entryKey = drop (length prefix) cursorKey"

definition StartCursor :: "Helpers \<Rightarrow> ListObjects \<Rightarrow> ListObjectsCursor" where
  "StartCursor h opts =
     (if \<not> HasPrefix (curKey (Cursor opts)) (loPrefix opts) then
        (if LessObjectKey (curKey (Cursor opts)) (loPrefix opts)
         then \<lparr>curKey = loPrefix opts, curVersion = FirstVersion h opts\<rparr>
         else \<lparr>curKey = curKey (Cursor opts), curVersion = FirstVersion h opts\<rparr>)
      else
        (let keyWithoutPrefix = drop (length (loPrefix opts)) (curKey (Cursor opts))
         in case (if \<not> Recursive opts then IndexByte keyWithoutPrefix Delimiter else None) of
              Some firstDelimiter \<Rightarrow>
                \<lparr>curKey = take (firstDelimiter + length (loPrefix opts)) (curKey (Cursor opts))
                          @ DelimiterNext,
                 curVersion = FirstVersion h opts\<rparr>
            | None \<Rightarrow> \<lparr>curKey = curKey (Cursor opts), curVersion = FirstVersion h opts\<rparr>))"

subsection \<open>The query of one batch\<close>

text \<open>
  The \<open>WHERE\<close> clause: the cursor boundary (\<open>boundaryPostgres\<close>), the bucket bound, the
  status condition and the expiry condition at the instant \<open>now\<close>. Modelled from the
  spec: \<open>nextBucket\<close> is not among the sources at hand; the upper bound is the start of
  the next bucket, so that the boundary and the bound together keep the rows of the
  project and the bucket of the request.
\<close>

definition inBucket :: "ListObjects \<Rightarrow> objects_row \<Rightarrow> bool" where
  "inBucket opts r \<longleftrightarrow> project_id r = loProjectID opts \<and> bucket_name r = loBucketName opts"

definition afterCursor :: "ListObjects \<Rightarrow> ListObjectsCursor \<Rightarrow> objects_row \<Rightarrow> bool" where
  "afterCursor opts c r \<longleftrightarrow>
     (if VersionAscending opts
      then object_key r > curKey c \<or> (object_key r = curKey c \<and> version r > curVersion c)
      else object_key r > curKey c \<or> (object_key r = curKey c \<and> version r < curVersion c))"

definition beforeStopKey :: "Helpers \<Rightarrow> ListObjects \<Rightarrow> objects_row \<Rightarrow> bool" where
  "beforeStopKey h opts r \<longleftrightarrow>
     (loPrefix opts \<noteq> [] \<longrightarrow> object_key r < PrefixLimit h (loPrefix opts))"

definition statusCondition :: "ListObjects \<Rightarrow> objects_row \<Rightarrow> bool" where
  "statusCondition opts r \<longleftrightarrow>
     (if loPending opts then status r = Pending else status r \<noteq> Pending)"

definition notExpired :: "Time \<Rightarrow> objects_row \<Rightarrow> bool" where
  "notExpired now r \<longleftrightarrow> (case expires_at r of None \<Rightarrow> True | Some t \<Rightarrow> t > now)"

definition visible :: "Time \<Rightarrow> ListObjects \<Rightarrow> objects_row \<Rightarrow> bool" where
  "visible now opts r \<longleftrightarrow> inBucket opts r \<and> statusCondition opts r \<and> notExpired now r"

definition candidate ::
  "Helpers \<Rightarrow> Time \<Rightarrow> ListObjects \<Rightarrow> ListObjectsCursor \<Rightarrow> objects_row \<Rightarrow> bool" where
  "candidate h now opts c r \<longleftrightarrow>
     afterCursor opts c r \<and> beforeStopKey h opts r \<and> visible now opts r"

text \<open>\<open>ORDER BY object_key ASC, version ASC\<close> or \<open>version DESC\<close>, then \<open>LIMIT\<close>.\<close>

definition orderKey :: "ListObjects \<Rightarrow> objects_row \<Rightarrow> string \<times> int" where
  "orderKey opts r =
     (object_key r, if VersionAscending opts then version r else - version r)"

definition queryObjects ::
  "Helpers \<Rightarrow> Time \<Rightarrow> DB \<Rightarrow> ListObjects \<Rightarrow> ListObjectsCursor \<Rightarrow> int \<Rightarrow> objects_row list"
  where
  "queryObjects h now db opts c batchSize =
     take (nat batchSize)
       (sort_key (orderKey opts) (filter (candidate h now opts c) (objects db)))"

text \<open>
  \<open>scanListObjectsEntryPostgres\<close>: the selected key is the key without the prefix
  (\<open>substring(object_key from len(prefix) + 1)\<close>); the metadata columns are read when
  they are selected; a non-recursive listing collapses a key with a delimiter into a
  prefix entry.
\<close>

definition emptyUserData :: EncryptedUserData where
  "emptyUserData =
     \<lparr>EncryptedMetadata = [], EncryptedMetadataNonce = [],
      EncryptedMetadataEncryptedKey = [], EncryptedETag = []\<rparr>"

definition prefixEntry :: "string \<Rightarrow> ObjectEntry" where
  "prefixEntry key =
     \<lparr>IsPrefix = True, entObjectKey = key, entVersion = 0, entStreamID = 0, entCreatedAt = 0,
      entExpiresAt = None, entStatus = Prefix, entSegmentCount = 0, entUserData = emptyUserData,
      entTotalPlainSize = 0, entTotalEncryptedSize = 0, entFixedSegmentSize = 0,
      entEncryption = \<lparr>CipherSuite = 0, BlockSize = 0\<rparr>, IsLatest = False\<rparr>"

definition selectedKey :: "ListObjects \<Rightarrow> objects_row \<Rightarrow> string" where
  "selectedKey opts r =
     (if loPrefix opts \<noteq> [] then drop (length (loPrefix opts)) (object_key r)
      else object_key r)"

definition scanListObjectsEntry :: "ListObjects \<Rightarrow> objects_row \<Rightarrow> ObjectEntry" where
  "scanListObjectsEntry opts r =
     (let sys = IncludeSystemMetadata opts;
          item = \<lparr>IsPrefix = False, entObjectKey = selectedKey opts r, entVersion = version r,
                   entStreamID = stream_id r,
                   entCreatedAt = (if sys then created_at r else 0),
                   entExpiresAt = (if sys then expires_at r else None),
                   entStatus = status r,
                   entSegmentCount = (if sys then segment_count r else 0),
                   entUserData = (if IncludeCustomMetadata opts then encrypted_user_data r
                                  else emptyUserData),
                   entTotalPlainSize = (if sys then total_plain_size r else 0),
                   entTotalEncryptedSize = (if sys then total_encrypted_size r else 0),
                   entFixedSegmentSize = (if sys then fixed_segment_size r else 0),
                   entEncryption = encryption r, IsLatest = False\<rparr>
      in case (if \<not> Recursive opts then IndexByte (entObjectKey item) Delimiter else None) of
           Some i \<Rightarrow> prefixEntry (take (i + 1) (entObjectKey item))
         | None \<Rightarrow> item)"

subsection \<open>The state of the listing loop\<close>

text \<open>
  \<open>result.Objects\<close>, \<open>lastEntry\<close> and \<open>skipCount\<close> live across batches;
  \<open>foundDeleteMarker\<close>, \<open>scannedCount\<close> and \<open>skipAhead\<close> start afresh in each
  batch.
\<close>

record ListState =
  stObjects :: "ObjectEntry list"
  leSet :: bool
  leObjectKey :: string
  leVersion :: Version
  leIsPrefix :: bool
  scPrefix :: int
  scVersion :: int
  foundDeleteMarker :: bool
  scannedCount :: int
  skipAhead :: bool

definition initialListState :: ListState where
  "initialListState =
     \<lparr>stObjects = [], leSet = False, leObjectKey = [], leVersion = 0, leIsPrefix = False,
      scPrefix = 0, scVersion = 0, foundDeleteMarker = False, scannedCount = 0,
      skipAhead = False\<rparr>"

text \<open>
  The locals of the body of the loop \<open>read_entries\<close>: the three reasons to skip a row,
  the flag \<open>IsLatest\<close> of the entry, and the update of \<open>lastEntry\<close>.
\<close>

definition sameEntry :: "ListState \<Rightarrow> ObjectEntry \<Rightarrow> bool" where
  "sameEntry st entry \<longleftrightarrow>
     leIsPrefix st = IsPrefix entry \<and> leObjectKey st = entObjectKey entry"

definition skipPrefix :: "ListState \<Rightarrow> ObjectEntry \<Rightarrow> bool" where
  "skipPrefix st entry \<longleftrightarrow>
     leSet st \<and> leIsPrefix st \<and> IsPrefix entry \<and> leObjectKey st = entObjectKey entry"

definition skipVersion :: "ListObjects \<Rightarrow> ListState \<Rightarrow> ObjectEntry \<Rightarrow> bool" where
  "skipVersion opts st entry \<longleftrightarrow> leSet st \<and> \<not> AllVersions opts \<and> sameEntry st entry"

definition skipCursorAllVersionsDoubleCheck :: "ListObjects \<Rightarrow> ObjectEntry \<Rightarrow> bool" where
  "skipCursorAllVersionsDoubleCheck opts entry \<longleftrightarrow>
     (if entryKeyMatchesCursor (loPrefix opts) (entObjectKey entry) (curKey (Cursor opts))
      then (if VersionAscending opts
            then entVersion entry \<le> curVersion (Cursor opts)
            else entVersion entry \<ge> curVersion (Cursor opts))
      else False)"

definition markLatest :: "ListObjects \<Rightarrow> ListState \<Rightarrow> ObjectEntry \<Rightarrow> ObjectEntry" where
  "markLatest opts st entry =
     (if \<not> loPending opts \<and> \<not> IsPrefix entry
      then entry\<lparr>IsLatest := (\<not> sameEntry st entry \<or> \<not> leSet st)\<rparr> else entry)"

definition setLastEntry :: "ListState \<Rightarrow> ObjectEntry \<Rightarrow> ListState" where
  "setLastEntry st entry =
     st\<lparr>leSet := True, leObjectKey := entObjectKey entry, leVersion := entVersion entry,
        leIsPrefix := IsPrefix entry\<rparr>"

text \<open>
  The body of the loop \<open>read_entries\<close> for one row: it returns from the function (the
  result is full), leaves the loop by \<open>break\<close>, or goes on with the next row. A return
  carries, beside the value returned, the slice \<open>result.Objects\<close> as it is before
  \<open>result.Objects[:opts.Limit]\<close> cuts it. Go's \<open>int\<close> has 64 bits on the platforms of
  the satellite, and its arithmetic wraps around: the counters and \<open>opts.Limit + 1\<close> are
  taken through \<open>int64\<close>. Slicing panics when the limit is negative or beyond the
  slice: the latter is reached only where \<open>opts.Limit + 1\<close> has wrapped around, with a
  limit that no capacity reaches.
\<close>

datatype rowOutcome =
    Return "error + ListObjectsResult" "ObjectEntry list"
  | Break ListState
  | Continue ListState

definition processRow :: "ListObjects \<Rightarrow> objects_row \<Rightarrow> ListState \<Rightarrow> rowOutcome" where
  "processRow opts row st =
     (let entry0 = scanListObjectsEntry opts row;
          st1 = st\<lparr>scannedCount := int64 (scannedCount st + 1)\<rparr>;
          skipP = skipPrefix st entry0;
          skipV = skipVersion opts st entry0;
          skipC = skipCursorAllVersionsDoubleCheck opts entry0;
          entry = markLatest opts st entry0;
          st2 = setLastEntry st1 entry
      in if skipP \<or> skipV \<or> skipC then
           (let st3 = st2\<lparr>scPrefix := (if skipP then int64 (scPrefix st2 + 1)
                                       else scPrefix st2),
                          scVersion := (if skipV then int64 (scVersion st2 + 1)
                                        else scVersion st2)\<rparr>
            in if scPrefix st3 \<ge> PrefixSkipRequery (Params opts) \<or>
                  scVersion st3 \<ge> VersionSkipRequery (Params opts)
               then Break (st3\<lparr>skipAhead := True, scPrefix := 0, scVersion := 0\<rparr>)
               else Continue st3)
         else
           (let st3 = st2\<lparr>scPrefix := 0, scVersion := 0\<rparr>
            in if \<not> AllVersions opts \<and> IsDeleteMarker (entStatus entry)
               then Continue (st3\<lparr>foundDeleteMarker := True\<rparr>)
               else
                 (let objs = stObjects st3 @ [entry]
                  in if int (length objs) \<ge> int64 (Limit opts + 1)
                     then (if Limit opts < 0 \<or> int (length objs) < Limit opts
                           then Return (Inl Panic) objs
                           else Return (Inr \<lparr>Objects = take (nat (Limit opts)) objs,
                                             More = True\<rparr>) objs)
                     else Continue (st3\<lparr>stObjects := objs\<rparr>))))"

text \<open>
  The loop \<open>read_entries\<close> over the rows of one batch: \<open>Inl\<close> when the function
  returns from inside the loop, \<open>Inr\<close> when the rows are used up or the loop is left by
  \<open>break\<close>.
\<close>

fun read_entries ::
  "ListObjects \<Rightarrow> objects_row list \<Rightarrow> ListState \<Rightarrow>
   ((error + ListObjectsResult) \<times> ObjectEntry list) + ListState"
  where
  "read_entries opts [] st = Inr st"
| "read_entries opts (row # rows) st =
     (case processRow opts row st of
        Return r objs \<Rightarrow> Inl (r, objs)
      | Break st' \<Rightarrow> Inr st'
      | Continue st' \<Rightarrow> read_entries opts rows st')"

text \<open>
  The cursor of the next batch, from \<open>lastEntry\<close>. Slicing off the last byte of an
  empty key would panic.
\<close>

definition nextCursor :: "Helpers \<Rightarrow> ListObjects \<Rightarrow> ListState \<Rightarrow> error + ListObjectsCursor" where
  "nextCursor h opts st =
     (if leIsPrefix st then
        (if leObjectKey st = [] then Inl Panic
         else Inr \<lparr>curKey = loPrefix opts @ butlast (leObjectKey st) @ DelimiterNext,
                   curVersion = FirstVersion h opts\<rparr>)
      else if AllVersions opts then
        Inr \<lparr>curKey = loPrefix opts @ leObjectKey st, curVersion = leVersion st\<rparr>
      else
        Inr \<lparr>curKey = loPrefix opts @ leObjectKey st, curVersion = lastVersion h opts\<rparr>)"

text \<open>
  A run of the function: the value it returns, and the locals as they are when the
  return is reached: \<open>result.Objects\<close> as accumulated (before it is cut to the limit),
  \<open>repeat\<close> and \<open>requeryLimit\<close>; and the batches whose rows the loop \<open>read_entries\<close>
  has read to its end, in order: the rows of the query and the state in which the loop
  over them started.
\<close>

record ListRun =
  runResult :: "error + ListObjectsResult"
  runAccumulated :: "ObjectEntry list"
  runRepeat :: int
  runRequeryLimit :: int
  runBatches :: "(objects_row list \<times> ListState) list"

text \<open>
  The loop over batches, \<open>for repeat := 0; repeat < requeryLimit; repeat++\<close>. The bound
  \<open>requeryLimit\<close> grows inside the loop, so the recursion runs on fuel: \<open>None\<close> means
  that the fuel ran out before the function returned. A negative \<open>LIMIT\<close> is an SQL
  error, wrapped as \<open>Error\<close>; the table and the instant \<open>now\<close> do not change between
  the batches.
\<close>

fun listLoop ::
  "nat \<Rightarrow> Helpers \<Rightarrow> Time \<Rightarrow> DB \<Rightarrow> ListObjects \<Rightarrow> int \<Rightarrow> int \<Rightarrow> int \<Rightarrow>
   ListObjectsCursor \<Rightarrow> ListState \<Rightarrow> (objects_row list \<times> ListState) list \<Rightarrow>
   ListRun option" where
  "listLoop 0 h now db opts batchSize repeat requeryLimit cursor st batches = None"
| "listLoop (Suc fuel) h now db opts batchSize repeat requeryLimit cursor st batches =
     (if \<not> repeat < requeryLimit then
        Some \<lparr>runResult = Inl TooManyRequeries, runAccumulated = stObjects st,
              runRepeat = repeat, runRequeryLimit = requeryLimit, runBatches = batches\<rparr>
      else if batchSize < 0 then
        Some \<lparr>runResult = Inl Error, runAccumulated = stObjects st,
              runRepeat = repeat, runRequeryLimit = requeryLimit, runBatches = batches\<rparr>
      else
        (let rows = queryObjects h now db opts cursor batchSize;
             st0 = st\<lparr>foundDeleteMarker := False, scannedCount := 0, skipAhead := False\<rparr>
         in case read_entries opts rows st0 of
              Inl (r, objs) \<Rightarrow>
                Some \<lparr>runResult = r, runAccumulated = objs,
                      runRepeat = repeat, runRequeryLimit = requeryLimit,
                      runBatches = batches\<rparr>
            | Inr st1 \<Rightarrow>
                (let requeryLimit1 = (if foundDeleteMarker st1 then int64 (requeryLimit + 1)
                                      else requeryLimit);
                     batches1 = batches @ [(rows, st0)]
                 in if scannedCount st1 = 0 then
                      Some \<lparr>runResult = Inr \<lparr>Objects = stObjects st1, More = False\<rparr>,
                            runAccumulated = stObjects st1,
                            runRepeat = repeat, runRequeryLimit = requeryLimit1,
                            runBatches = batches1\<rparr>
                    else if \<not> skipAhead st1 \<and> scannedCount st1 < batchSize then
                      Some \<lparr>runResult = Inr \<lparr>Objects = stObjects st1, More = False\<rparr>,
                            runAccumulated = stObjects st1,
                            runRepeat = repeat, runRequeryLimit = requeryLimit1,
                            runBatches = batches1\<rparr>
                    else
                      (case nextCursor h opts st1 of
                         Inl e \<Rightarrow>
                           Some \<lparr>runResult = Inl e, runAccumulated = stObjects st1,
                                 runRepeat = repeat, runRequeryLimit = requeryLimit1,
                                 runBatches = batches1\<rparr>
                       | Inr cursor1 \<Rightarrow>
                           listLoop fuel h now db opts batchSize (int64 (repeat + 1))
                             requeryLimit1 cursor1 st1 batches1))))"

text \<open>\<open>PostgresAdapter.ListObjects\<close>: the batch size, then the loop.\<close>

definition batchSizeOf :: "ListObjects \<Rightarrow> int" where
  "batchSizeOf opts =
     (let extraEntriesForMore = 1;
          extraEntriesForIsLatest = 3;
          b0 = int64 (Limit opts + extraEntriesForMore);
          b1 = (if Cursor opts \<noteq> \<lparr>curKey = [], curVersion = 0\<rparr>
                then int64 (b0 + extraEntriesForIsLatest) else b0);
          b2 = (if \<not> Recursive opts
                then int64 (b1 + QueryExtraForNonRecursive (Params opts)) else b1)
      in if b2 < MinBatchSize (Params opts) then MinBatchSize (Params opts) else b2)"

definition ListObjectsRun ::
  "nat \<Rightarrow> Helpers \<Rightarrow> Time \<Rightarrow> DB \<Rightarrow> ListObjects \<Rightarrow> ListRun option" where
  "ListObjectsRun fuel h now db opts =
     listLoop fuel h now db opts (batchSizeOf opts) 0 (int64 (Limit opts + 10))
       (StartCursor h opts) initialListState []"

definition ListObjects ::
  "nat \<Rightarrow> Helpers \<Rightarrow> Time \<Rightarrow> DB \<Rightarrow> ListObjects \<Rightarrow> (error + ListObjectsResult) option" where
  "ListObjects fuel h now db opts = map_option runResult (ListObjectsRun fuel h now db opts)"

subsection \<open>Notions for the statements about the listing\<close>

text \<open>
  The versions of a table are in range when they lie between 0 and \<open>MaxVersion\<close>, and
  strictly in range when they lie strictly between them. The prefix limit is sound for a
  prefix when every key from the prefix up to the limit has the prefix.
\<close>

definition versionsInRange :: "Helpers \<Rightarrow> DB \<Rightarrow> bool" where
  "versionsInRange h db \<longleftrightarrow>
     list_all (\<lambda>r. 0 \<le> version r \<and> version r \<le> MaxVersion h) (objects db)"

definition versionsStrictlyInRange :: "Helpers \<Rightarrow> DB \<Rightarrow> bool" where
  "versionsStrictlyInRange h db \<longleftrightarrow>
     list_all (\<lambda>r. 0 < version r \<and> version r < MaxVersion h) (objects db)"

definition prefixLimitSound :: "Helpers \<Rightarrow> string \<Rightarrow> bool" where
  "prefixLimitSound h p \<longleftrightarrow>
     (p \<noteq> [] \<longrightarrow> (\<forall>k. p \<le> k \<and> k < PrefixLimit h p \<longrightarrow> HasPrefix k p))"

text \<open>
  A row is the first of its key when no row of the same key that the listing can see
  comes before it in the order of the listing. The newest version of a key is a delete
  marker when a delete marker that the listing can see has the greatest version among
  the rows of the key that the listing can see.
\<close>

definition firstOfKey :: "Time \<Rightarrow> ListObjects \<Rightarrow> DB \<Rightarrow> objects_row \<Rightarrow> bool" where
  "firstOfKey now opts db r \<longleftrightarrow>
     r \<in> set (objects db) \<and> visible now opts r \<and>
     list_all (\<lambda>r'. visible now opts r' \<and> object_key r' = object_key r \<longrightarrow>
                     orderKey opts r \<le> orderKey opts r') (objects db)"

definition newestIsDeleteMarker :: "Time \<Rightarrow> ListObjects \<Rightarrow> DB \<Rightarrow> string \<Rightarrow> bool" where
  "newestIsDeleteMarker now opts db key \<longleftrightarrow>
     list_ex (\<lambda>r. visible now opts r \<and> object_key r = key \<and> IsDeleteMarker (status r) \<and>
                  list_all (\<lambda>r'. visible now opts r' \<and> object_key r' = key \<longrightarrow>
                                  version r' \<le> version r) (objects db))
             (objects db)"

text \<open>
  An entry of the result is an entry of the row \<open>r\<close> when it is what the scan makes of
  the row, up to the flag \<open>IsLatest\<close>.
\<close>

definition entryOfRow :: "ListObjects \<Rightarrow> ObjectEntry \<Rightarrow> objects_row \<Rightarrow> bool" where
  "entryOfRow opts e r \<longleftrightarrow> e\<lparr>IsLatest := False\<rparr> = scanListObjectsEntry opts r"

text \<open>
  A good entry of a listing of latest versions: it is no delete marker, and it is the
  entry of a row that is the first of its key; an object entry has the status of its
  row.
\<close>

definition goodEntry :: "Time \<Rightarrow> ListObjects \<Rightarrow> DB \<Rightarrow> ObjectEntry \<Rightarrow> bool" where
  "goodEntry now opts db e \<longleftrightarrow>
     \<not> IsDeleteMarker (entStatus e) \<and>
     list_ex (\<lambda>r. firstOfKey now opts db r \<and> entryOfRow opts e r \<and>
                  (if IsPrefix e then \<not> Recursive opts \<and> entStatus e = Prefix
                   else \<not> IsDeleteMarker (status r))) (objects db)"

text \<open>
  An entry is emitted for a row in a state when it is the entry of the row, the row is
  not skipped as a further version of the last entry, and, unless all versions are
  listed, it is no delete marker.
\<close>

definition emitted :: "ListObjects \<Rightarrow> objects_row \<Rightarrow> ListState \<Rightarrow> ObjectEntry \<Rightarrow> bool" where
  "emitted opts row st e \<longleftrightarrow>
     entryOfRow opts e row \<and>
     \<not> skipVersion opts st (scanListObjectsEntry opts row) \<and>
     (\<not> AllVersions opts \<longrightarrow> \<not> IsDeleteMarker (entStatus e))"

text \<open>
  The invariant of \<open>read_entries\<close> on the rows still to read: they are sorted, and an
  earlier visible row of the key of a row to read is itself still to read, or it set
  \<open>lastEntry\<close> to the entry of that key and only rows of that key lie in between.
\<close>

definition keyGroupInv ::
  "Time \<Rightarrow> ListObjects \<Rightarrow> DB \<Rightarrow> ListState \<Rightarrow> objects_row list \<Rightarrow> bool" where
  "keyGroupInv now opts db st rs \<longleftrightarrow>
     sorted (map (orderKey opts) rs) \<and>
     (\<forall>r \<in> set rs.
        r \<in> set (objects db) \<and> visible now opts r \<and>
        (\<forall>r' \<in> set (objects db).
           visible now opts r' \<and> object_key r' = object_key r \<and>
           orderKey opts r' < orderKey opts r \<longrightarrow>
           r' \<in> set rs \<or>
           (leSet st \<and> sameEntry st (scanListObjectsEntry opts r) \<and>
            (\<forall>x \<in> set rs. orderKey opts x \<le> orderKey opts r \<longrightarrow>
                  object_key x = object_key r))))"

text \<open>
  The delete markers that a batch hides. A row is hidden in a state when not all versions
  are listed, its entry is a delete marker, and none of the three reasons to skip it
  applies; a batch hides a delete marker when the loop \<open>read_entries\<close> reaches such a row.
\<close>

definition hiddenAt :: "ListObjects \<Rightarrow> objects_row \<Rightarrow> ListState \<Rightarrow> bool" where
  "hiddenAt opts row st \<longleftrightarrow>
     \<not> AllVersions opts \<and>
     IsDeleteMarker (entStatus (scanListObjectsEntry opts row)) \<and>
     \<not> skipPrefix st (scanListObjectsEntry opts row) \<and>
     \<not> skipVersion opts st (scanListObjectsEntry opts row) \<and>
     \<not> skipCursorAllVersionsDoubleCheck opts (scanListObjectsEntry opts row)"

fun hidesDeleteMarker :: "ListObjects \<Rightarrow> objects_row list \<Rightarrow> ListState \<Rightarrow> bool" where
  "hidesDeleteMarker opts [] st = False"
| "hidesDeleteMarker opts (row # rows) st =
     (hiddenAt opts row st \<or>
      (case processRow opts row st of
         Continue st' \<Rightarrow> hidesDeleteMarker opts rows st'
       | _ \<Rightarrow> False))"

definition hidingBatches ::
  "ListObjects \<Rightarrow> (objects_row list \<times> ListState) list \<Rightarrow> (objects_row list \<times> ListState) list"
  where
  "hidingBatches opts batches =
     filter (\<lambda>b. hidesDeleteMarker opts (fst b) (snd b)) batches"

text \<open>
  The counters fit when \<open>Limit + 10\<close> and one more for every row of the table stay in the
  range of \<open>int\<close>: then nothing in the loop wraps around.
\<close>

definition countersFit :: "ListObjects \<Rightarrow> DB \<Rightarrow> bool" where
  "countersFit opts db \<longleftrightarrow> Limit opts + 10 + int (length (objects db)) < 2 ^ 63"

text \<open>
  The bounds of a run: the loop has not run more often than \<open>requeryLimit\<close> allows, and
  has used it up exactly when the run fails with too many requeries; \<open>requeryLimit\<close>
  is \<open>Limit + 10\<close> and one more for every batch read that hid a delete marker; every
  requery has read a batch; the result is the accumulated slice cut to the limit, and
  \<open>More\<close> is set exactly when \<open>Limit + 1\<close> entries had been accumulated.
\<close>

definition runBounds :: "ListObjects \<Rightarrow> ListRun \<Rightarrow> bool" where
  "runBounds opts run \<longleftrightarrow>
      runRepeat run \<le> runRequeryLimit run \<and>
      (runResult run = Inl TooManyRequeries \<longleftrightarrow> runRepeat run = runRequeryLimit run) \<and>
      runRequeryLimit run =
        Limit opts + 10 + int (length (hidingBatches opts (runBatches run))) \<and>
      runRepeat run \<le> int (length (runBatches run)) \<and>
      int (length (runBatches run)) \<le> runRepeat run + 1 \<and>
      (\<forall>res. runResult run = Inr res \<longrightarrow>
         int (length (Objects res)) \<le> Limit opts \<and>
         Objects res = take (nat (Limit opts)) (runAccumulated run) \<and>
         (More res \<longleftrightarrow> int (length (runAccumulated run)) = Limit opts + 1))"

section \<open>A concrete database, for the evaluated examples\<close>

text \<open>
  One instance of the parameters: validators that reject empty fields, aliases equal to
  the node numbers, the precommit evaluator on its versioned path, which deletes
  nothing and returns the highest version at the location (0 if none), the largest
  64-bit version, and a prefix limit that increments the last byte of the prefix.
\<close>

definition highestVersionAt :: "DB \<Rightarrow> ObjectLocation \<Rightarrow> Version" where
  "highestVersionAt db loc =
     fold max
       (map version
          (filter (\<lambda>r. project_id r = locProjectID loc \<and> bucket_name r = locBucketName loc \<and>
                        object_key r = locObjectKey loc) (objects db))) 0"

definition exampleHelpers :: Helpers where
  "exampleHelpers =
     \<lparr>ObjectStreamVerify =
        (\<lambda>os. if ProjectID os = 0 \<or> BucketName os = [] \<or> ObjectKey os = [] \<or> StreamID os = 0
              then Some ErrInvalidRequest else None),
      ObjectLocationVerify =
        (\<lambda>loc. if locProjectID loc = 0 \<or> locBucketName loc = [] \<or> locObjectKey loc = []
               then Some ErrInvalidRequest else None),
      EncryptedUserDataVerify = (\<lambda>u. None),
      PiecesVerify = (\<lambda>ps. if ps = [] then Some ErrInvalidRequest else None),
      IfNoneMatchVerify = (\<lambda>xs. None),
      IfNoneMatchAll = (\<lambda>xs. xs = [''*'']),
      EnsurePiecesToAliases =
        (\<lambda>ps. Inr (map (\<lambda>p. \<lparr>AliasNumber = Number p, Alias = StorageNode p\<rparr>) ps)),
      RunPrecommitConstraint =
        (\<lambda>pc db. Inr (\<lparr>HighestVersion = highestVersionAt db (Location pc),
                         DeletedObjectCount = 0, DeletedSegmentCount = 0\<rparr>, db)),
      MaxVersion = 9223372036854775807,
      PrefixLimit = (\<lambda>p. if p = [] then [] else butlast p @ [char_of (of_char (last p) + (1::nat))])\<rparr>"

definition exampleConfig :: Config where
  "exampleConfig = \<lparr>MaxNumberOfParts = 10000, MinPartSize = 5\<rparr>"

definition exampleObjectRow :: "Version \<Rightarrow> UUID \<Rightarrow> ObjectStatus \<Rightarrow> objects_row" where
  "exampleObjectRow v sid st =
     \<lparr>project_id = 1, bucket_name = ''b1'', object_key = ''k'', version = v, stream_id = sid,
      status = st, created_at = 10, expires_at = None, segment_count = 0,
      total_plain_size = 0, total_encrypted_size = 0, fixed_segment_size = 0,
      encryption = \<lparr>CipherSuite = 1, BlockSize = 256\<rparr>,
      zombie_deletion_deadline = (if st = Pending then Some 100 else None),
      encrypted_user_data = \<lparr>EncryptedMetadata = [], EncryptedMetadataNonce = [],
                              EncryptedMetadataEncryptedKey = [], EncryptedETag = []\<rparr>,
      retention_mode = \<lparr>retentionMode = NoRetention, legalHold = False\<rparr>,
      retain_until = 0\<rparr>"

definition exampleSegmentRow :: "UUID \<Rightarrow> nat \<Rightarrow> nat \<Rightarrow> int \<Rightarrow> segments_row" where
  "exampleSegmentRow sid p i sz =
     \<lparr>seg_stream_id = sid, position = \<lparr>Part = p, Index = i\<rparr>, seg_expires_at = None,
      root_piece_id = 9, encrypted_key_nonce = [1], encrypted_key = [2],
      encrypted_size = sz + 16, plain_offset = 0, plain_size = sz, encrypted_etag = [],
      redundancy = \<lparr>Algorithm = 1, ShareSize = 256, RequiredShares = 1, RepairShares = 2,
                     OptimalShares = 3, TotalShares = 4\<rparr>,
      remote_alias_pieces = Some [\<lparr>AliasNumber = 0, Alias = 1\<rparr>,
                                  \<lparr>AliasNumber = 1, Alias = 2\<rparr>,
                                  \<lparr>AliasNumber = 2, Alias = 3\<rparr>],
      placement = 0, inline_data = None, repaired_at = None\<rparr>"

definition exampleDB :: DB where
  "exampleDB =
     \<lparr>objects = [exampleObjectRow 1 7 Pending],
      segments = [exampleSegmentRow 7 0 1 50, exampleSegmentRow 7 0 0 100]\<rparr>"

definition exampleCommitObject :: CommitObject where
  "exampleCommitObject =
     \<lparr>ProjectID = 1, BucketName = ''b1'', ObjectKey = ''k'', Version = 1, StreamID = 7,
      coEncryption = \<lparr>CipherSuite = 0, BlockSize = 0\<rparr>, OverrideEncryptedMetadata = False,
      coUserData = \<lparr>EncryptedMetadata = [], EncryptedMetadataNonce = [],
                     EncryptedMetadataEncryptedKey = [], EncryptedETag = []\<rparr>,
      DisallowDelete = False, Versioned = True, IfNoneMatch = []\<rparr>"

definition exampleCommitted :: Object where
  "exampleCommitted =
     \<lparr>ProjectID = 1, BucketName = ''b1'', ObjectKey = ''k'', Version = 1, StreamID = 7,
      CreatedAt = 10, ExpiresAt = None, Status = CommittedVersioned, SegmentCount = 2,
      UserData = \<lparr>EncryptedMetadata = [], EncryptedMetadataNonce = [],
                   EncryptedMetadataEncryptedKey = [], EncryptedETag = []\<rparr>,
      TotalPlainSize = 150, TotalEncryptedSize = 182, FixedSegmentSize = 100,
      Encryption = \<lparr>CipherSuite = 1, BlockSize = 256\<rparr>, ZombieDeletionDeadline = None,
      ObjRetention = \<lparr>Mode = NoRetention, RetainUntil = 0\<rparr>, LegalHold = False\<rparr>"

definition exampleDBCommitted :: DB where
  "exampleDBCommitted =
     \<lparr>objects = [(exampleObjectRow 1 7 CommittedVersioned)
                    \<lparr>segment_count := 2, total_plain_size := 150,
                     total_encrypted_size := 182, fixed_segment_size := 100\<rparr>],
      segments = [(exampleSegmentRow 7 0 1 50)\<lparr>plain_offset := 100\<rparr>,
                  exampleSegmentRow 7 0 0 100]\<rparr>"

text \<open>
  A committed object under a compliance retention that lasts until instant 100, and a
  request that sets the very same retention again.
\<close>

definition exampleLockedRow :: objects_row where
  "exampleLockedRow =
     (exampleObjectRow 1 7 CommittedVersioned)
       \<lparr>retention_mode := \<lparr>retentionMode = ComplianceMode, legalHold = False\<rparr>,
        retain_until := 100\<rparr>"

definition exampleDBLocked :: DB where
  "exampleDBLocked = \<lparr>objects = [exampleLockedRow], segments = []\<rparr>"

definition exampleLocation :: ObjectLocation where
  "exampleLocation = \<lparr>locProjectID = 1, locBucketName = ''b1'', locObjectKey = ''k''\<rparr>"

definition exampleSameRetention :: Retention where
  "exampleSameRetention = \<lparr>Mode = ComplianceMode, RetainUntil = 100\<rparr>"

definition exampleLaterRetention :: Retention where
  "exampleLaterRetention = \<lparr>Mode = ComplianceMode, RetainUntil = 200\<rparr>"

text \<open>A request to begin the next version at the location of the examples.\<close>

definition exampleBegin :: BeginObjectNextVersion where
  "exampleBegin =
     \<lparr>ProjectID = 1, BucketName = ''b1'', ObjectKey = ''k'', Version = 0, StreamID = 8,
      bnExpiresAt = None, bnZombieDeletionDeadline = Some 500,
      bnUserData = \<lparr>EncryptedMetadata = [], EncryptedMetadataNonce = [],
                     EncryptedMetadataEncryptedKey = [], EncryptedETag = []\<rparr>,
      bnEncryption = \<lparr>CipherSuite = 1, BlockSize = 256\<rparr>,
      bnRetention = \<lparr>Mode = NoRetention, RetainUntil = 0\<rparr>, bnLegalHold = False\<rparr>"

text \<open>
  Repair requests on the segment at position (0, 0) of stream 7, whose stored piece-set
  is \<open>{(0, 1), (1, 2), (2, 3)}\<close>: one that replaces node 2 by node 4, and a stale one
  whose old piece-set is not the stored one and whose new piece-set is.
\<close>

definition examplePieces :: "nat \<Rightarrow> Pieces" where
  "examplePieces n =
     [\<lparr>Number = 0, StorageNode = 1\<rparr>, \<lparr>Number = 1, StorageNode = n\<rparr>,
      \<lparr>Number = 2, StorageNode = 3\<rparr>]"

definition exampleAliases :: "nat \<Rightarrow> AliasPieces" where
  "exampleAliases n =
     [\<lparr>AliasNumber = 0, Alias = 1\<rparr>, \<lparr>AliasNumber = 1, Alias = n\<rparr>,
      \<lparr>AliasNumber = 2, Alias = 3\<rparr>]"

definition exampleRepair :: "nat \<Rightarrow> nat \<Rightarrow> UpdateSegmentPieces" where
  "exampleRepair old new =
     \<lparr>DBAdapterName = [], uspStreamID = 7, uspPosition = \<lparr>Part = 0, Index = 0\<rparr>,
      OldPieces = examplePieces old,
      NewRedundancy = \<lparr>Algorithm = 1, ShareSize = 256, RequiredShares = 1, RepairShares = 2,
                        OptimalShares = 3, TotalShares = 4\<rparr>,
      NewPieces = examplePieces new, NewRepairedAt = 0\<rparr>"

definition exampleAdapters :: "(string \<times> DB) list" where
  "exampleAdapters = [(''pg'', exampleDBCommitted)]"

text \<open>
  A remote segment committed again at position (0, 0) of the pending stream 7, over a row
  that was an inline segment and carries a repair stamp.
\<close>

definition exampleCommitSegment :: "nat \<Rightarrow> CommitSegment" where
  "exampleCommitSegment n =
     \<lparr>ProjectID = 1, BucketName = ''b1'', ObjectKey = ''k'', Version = 1, StreamID = 7,
      csPosition = \<lparr>Part = 0, Index = 0\<rparr>, RootPieceID = 9, csExpiresAt = None,
      EncryptedKeyNonce = [1], EncryptedKey = [2], PlainOffset = 0, PlainSize = 100,
      EncryptedSize = 116, csEncryptedETag = [],
      Redundancy = \<lparr>Algorithm = 1, ShareSize = 256, RequiredShares = 1, RepairShares = 2,
                     OptimalShares = 3, TotalShares = 4\<rparr>,
      Pieces = take n (examplePieces 2), Placement = 0\<rparr>"

definition exampleOldSegment :: segments_row where
  "exampleOldSegment =
     (exampleSegmentRow 7 0 0 40)
       \<lparr>remote_alias_pieces := None, inline_data := Some [1, 2, 3], repaired_at := Some 5\<rparr>"

definition exampleDBInline :: DB where
  "exampleDBInline = \<lparr>objects = [exampleObjectRow 1 7 Pending], segments = [exampleOldSegment]\<rparr>"

text \<open>
  A bucket for the listing examples: the key \<open>k\<close> with a committed version under a
  delete marker, the key \<open>b\<close> with one committed version, and a row of another bucket;
  a listing request without prefix and cursor, and the entry that a recursive listing
  without system metadata makes of a row.
\<close>

definition exampleListRow :: "string \<Rightarrow> Version \<Rightarrow> ObjectStatus \<Rightarrow> objects_row" where
  "exampleListRow key v st = (exampleObjectRow v (nat v + 20) st)\<lparr>object_key := key\<rparr>"

definition exampleListDB :: DB where
  "exampleListDB =
     \<lparr>objects =
        [exampleListRow ''k'' 1 CommittedVersioned,
         exampleListRow ''b'' 1 CommittedVersioned,
         (exampleListRow ''c'' 1 CommittedVersioned)\<lparr>bucket_name := ''b2''\<rparr>,
         exampleListRow ''k'' 2 DeleteMarkerVersioned],
      segments = []\<rparr>"

definition exampleList :: "bool \<Rightarrow> bool \<Rightarrow> string \<Rightarrow> int \<Rightarrow> ListObjects" where
  "exampleList recursive allVersions prefix limit =
     \<lparr>loProjectID = 1, loBucketName = ''b1'', Recursive = recursive, Limit = limit,
      loPrefix = prefix, Cursor = \<lparr>curKey = [], curVersion = 0\<rparr>, loPending = False,
      AllVersions = allVersions, IncludeCustomMetadata = False, IncludeSystemMetadata = False,
      Unversioned = False,
      Params = \<lparr>VersionSkipRequery = 1000, PrefixSkipRequery = 1000,
                 QueryExtraForNonRecursive = 10, MinBatchSize = 2\<rparr>\<rparr>"

definition exampleEntry :: "string \<Rightarrow> Version \<Rightarrow> ObjectStatus \<Rightarrow> bool \<Rightarrow> ObjectEntry" where
  "exampleEntry key v st latest =
     \<lparr>IsPrefix = False, entObjectKey = key, entVersion = v, entStreamID = nat v + 20,
      entCreatedAt = 0, entExpiresAt = None, entStatus = st, entSegmentCount = 0,
      entUserData = emptyUserData, entTotalPlainSize = 0, entTotalEncryptedSize = 0,
      entFixedSegmentSize = 0, entEncryption = \<lparr>CipherSuite = 1, BlockSize = 256\<rparr>,
      IsLatest = latest\<rparr>"

text \<open>
  The same request with the flag \<open>Unversioned\<close>, which makes the listing ascend through the
  versions; the two batches of the examples, and the state after the loop has read the
  second of them for a listing of latest versions.
\<close>

definition exampleUnversionedList :: ListObjects where
  "exampleUnversionedList = (exampleList True False [] 10)\<lparr>Unversioned := True\<rparr>"

definition exampleBatch :: "objects_row list" where
  "exampleBatch =
     [exampleListRow ''b'' 1 CommittedVersioned, exampleListRow ''k'' 2 DeleteMarkerVersioned,
      exampleListRow ''k'' 1 CommittedVersioned]"

definition exampleShortBatch :: "objects_row list" where
  "exampleShortBatch =
     [exampleListRow ''b'' 1 CommittedVersioned, exampleListRow ''k'' 2 DeleteMarkerVersioned]"

definition exampleAfterShortBatch :: ListState where
  "exampleAfterShortBatch =
     \<lparr>stObjects = [exampleEntry ''b'' 1 CommittedVersioned True], leSet = True,
      leObjectKey = ''k'', leVersion = 2, leIsPrefix = False, scPrefix = 0, scVersion = 0,
      foundDeleteMarker = True, scannedCount = 2, skipAhead = False\<rparr>"

text \<open>A bucket with a key under the prefix \<open>a/\<close> and a key outside of it.\<close>

definition examplePrefixDB :: DB where
  "examplePrefixDB =
     \<lparr>objects =
        [exampleListRow ''b'' 1 CommittedVersioned,
         exampleListRow ''a/x'' 1 CommittedVersioned],
      segments = []\<rparr>"

text \<open>A bucket whose only row is a delete marker under the prefix \<open>a/\<close>.\<close>

definition exampleDeletedPrefixDB :: DB where
  "exampleDeletedPrefixDB =
     \<lparr>objects = [exampleListRow ''a/x'' 1 DeleteMarkerVersioned], segments = []\<rparr>"

section \<open>Properties of CommitObject\<close>

lemma length_finalSegmentsFrom: "length (finalSegmentsFrom off segs) = length segs"
  by (induction segs arbitrary: off) auto

lemma nth_finalSegmentsFrom:
  "j < length segs \<Longrightarrow>
   stcPosition (finalSegmentsFrom off segs ! j) = sicPosition (segs ! j) \<and>
   stcPlainSize (finalSegmentsFrom off segs ! j) = sicPlainSize (segs ! j)"
proof (induction segs arbitrary: off j)
  case Nil
  then show ?case by simp
next
  case (Cons s ss)
  then show ?case by (cases j) auto
qed

lemma fixedSegmentSizeLoop_char:
  "fixedSegmentSizeLoop xs i n f =
     (if \<forall>j < length xs.
           Part (stcPosition (xs ! j)) = 0 \<and> Index (stcPosition (xs ! j)) = uint32 (i + j) \<and>
           (int (i + j) < int n - 1 \<longrightarrow> stcPlainSize (xs ! j) = f)
      then f else - 1)"
proof (induction xs arbitrary: i)
  case Nil
  then show ?case by simp
next
  case (Cons x xs)
  have split: "\<And>P. (\<forall>j < length (x # xs). P j) \<longleftrightarrow> P 0 \<and> (\<forall>j < length xs. P (Suc j))"
    by (auto simp: less_Suc_eq_0_disj)
  show ?case
    unfolding split
    by (auto simp: Cons.IH)
qed

lemma CommitObject_success:
  assumes "CommitObject h cfg db opts = Inr (obj, db')"
  shows "\<exists>pre db2 obj0.
           RunPrecommitConstraint h (commitObjectPrecommit h opts)
             (updateSegmentOffsets db (StreamID opts)
                (convertToFinalSegments (fetchSegmentsForCommit db (StreamID opts))))
             = Inr (pre, db2) \<and>
           finalizeObjectCommit db2 opts (committedWhereVersioned (Versioned opts))
             (nextVersionOf (Version opts) (HighestVersion pre))
             (fetchSegmentsForCommit db (StreamID opts))
             (fold (\<lambda>seg acc. int64 (acc + stcPlainSize seg))
                (convertToFinalSegments (fetchSegmentsForCommit db (StreamID opts))) 0)
             (fold (\<lambda>seg acc. int64 (acc + stcEncryptedSize seg))
                (convertToFinalSegments (fetchSegmentsForCommit db (StreamID opts))) 0)
             (computeFixedSegmentSize
                (convertToFinalSegments (fetchSegmentsForCommit db (StreamID opts))))
             = Inr (obj0, db') \<and>
           Version obj = nextVersionOf (Version opts) (HighestVersion pre) \<and>
           FixedSegmentSize obj =
             computeFixedSegmentSize
               (convertToFinalSegments (fetchSegmentsForCommit db (StreamID opts)))"
  using assms
  by (auto simp: CommitObject_def Let_def split: option.splits sum.splits prod.splits)

lemma finalizeObjectCommit_stored:
  assumes "finalizeObjectCommit db opts st v segs tp te f = Inr (obj0, db')"
  shows "\<exists>row \<in> set (objects db). isPendingRowOf opts row \<and>
           finalizedRow opts st v (int (length segs)) tp te f row \<in> set (objects db')"
proof -
  from assms obtain row rest where flt: "filter (isPendingRowOf opts) (objects db) = row # rest"
    by (auto simp: finalizeObjectCommit_def split: list.splits)
  have "row \<in> set (filter (isPendingRowOf opts) (objects db))"
    by (simp add: flt)
  then have row: "row \<in> set (objects db)" "isPendingRowOf opts row"
    by auto
  from assms flt have db': "db' = db\<lparr>objects :=
      map (\<lambda>r. if isPendingRowOf opts r
                then finalizedRow opts st v (int (length segs)) tp te f r else r) (objects db)\<rparr>"
    by (auto simp: finalizeObjectCommit_def Let_def split: if_splits)
  have "finalizedRow opts st v (int (length segs)) tp te f row \<in> set (objects db')"
    unfolding db' using row by (auto simp: image_iff intro!: bexI[of _ row])
  with row show ?thesis by blast
qed

lemma fixedSegmentSizeLoop_from_0:
  "fixedSegmentSizeLoop xs 0 n f =
     (if \<forall>j < length xs.
           Part (stcPosition (xs ! j)) = 0 \<and> Index (stcPosition (xs ! j)) = uint32 j \<and>
           (j + 1 < n \<longrightarrow> stcPlainSize (xs ! j) = f)
      then f else - 1)"
proof -
  have "\<And>j. (int (0 + j) < int n - 1) = (j + 1 < n)"
    by auto
  then show ?thesis
    unfolding fixedSegmentSizeLoop_char by simp
qed

lemma computeFixedSegmentSize_char:
  assumes "segs \<noteq> []" and "length segs \<le> 2 ^ 32"
  shows "computeFixedSegmentSize (convertToFinalSegments segs) =
           (if contiguousPositions segs \<and> nonLastShareSize segs (sicPlainSize (segs ! 0))
            then sicPlainSize (segs ! 0) else - 1)"
proof -
  obtain s ss where segs: "segs = s # ss"
    using assms(1) by (cases segs) auto
  let ?fs = "convertToFinalSegments segs"
  let ?f = "sicPlainSize (segs ! 0)"
  have len: "length ?fs = length segs"
    by (simp add: convertToFinalSegments_def length_finalSegmentsFrom)
  have pos: "\<And>j. j < length segs \<Longrightarrow> stcPosition (?fs ! j) = sicPosition (segs ! j)"
    and siz: "\<And>j. j < length segs \<Longrightarrow> stcPlainSize (?fs ! j) = sicPlainSize (segs ! j)"
    by (simp_all add: convertToFinalSegments_def nth_finalSegmentsFrom)
  have first: "computeFixedSegmentSize ?fs = fixedSegmentSizeLoop ?fs 0 (length segs) ?f"
    using len by (simp add: computeFixedSegmentSize_def convertToFinalSegments_def segs)
  have u: "\<And>j. j < length segs \<Longrightarrow> uint32 j = j"
    unfolding uint32_def by (rule mod_less) (rule less_le_trans [OF _ assms(2)])
  have cond: "(\<forall>j < length ?fs.
           Part (stcPosition (?fs ! j)) = 0 \<and> Index (stcPosition (?fs ! j)) = uint32 j \<and>
           (j + 1 < length segs \<longrightarrow> stcPlainSize (?fs ! j) = ?f))
        \<longleftrightarrow> contiguousPositions segs \<and> nonLastShareSize segs ?f" (is "?L \<longleftrightarrow> ?R")
  proof
    assume L: ?L
    have "contiguousPositions segs"
      unfolding contiguousPositions_def
    proof (intro allI impI)
      fix i assume i: "i < length segs"
      with L len have "Part (stcPosition (?fs ! i)) = 0 \<and> Index (stcPosition (?fs ! i)) = uint32 i"
        by simp
      with i show "Part (sicPosition (segs ! i)) = 0 \<and> Index (sicPosition (segs ! i)) = i"
        by (simp add: pos u)
    qed
    moreover have "nonLastShareSize segs ?f"
      unfolding nonLastShareSize_def
    proof (intro allI impI)
      fix i assume i: "i + 1 < length segs"
      then have i': "i < length segs" by simp
      with L len i have "stcPlainSize (?fs ! i) = ?f"
        by simp
      with i' show "sicPlainSize (segs ! i) = ?f"
        by (simp add: siz)
    qed
    ultimately show ?R ..
  next
    assume R: ?R
    show ?L
    proof (intro allI impI)
      fix j assume "j < length ?fs"
      then have j: "j < length segs" by (simp add: len)
      from R j have "Part (sicPosition (segs ! j)) = 0" "Index (sicPosition (segs ! j)) = j"
        by (simp_all add: contiguousPositions_def)
      moreover from R have "j + 1 < length segs \<longrightarrow> sicPlainSize (segs ! j) = ?f"
        unfolding nonLastShareSize_def by blast
      ultimately show "Part (stcPosition (?fs ! j)) = 0 \<and> Index (stcPosition (?fs ! j)) = uint32 j \<and>
           (j + 1 < length segs \<longrightarrow> stcPlainSize (?fs ! j) = ?f)"
        using j by (simp add: pos siz u)
    qed
  qed
  show ?thesis
    unfolding first fixedSegmentSizeLoop_from_0 cond ..
qed


subsection \<open>The example run\<close>

lemmas example_defs = exampleHelpers_def exampleConfig_def exampleDB_def exampleCommitObject_def
  exampleObjectRow_def exampleSegmentRow_def highestVersionAt_def

lemma example_fetch:
  "fetchSegmentsForCommit exampleDB 7 =
     [\<lparr>sicPosition = \<lparr>Part = 0, Index = 0\<rparr>, sicEncryptedSize = 116, sicPlainOffset = 0,
       sicPlainSize = 100\<rparr>,
      \<lparr>sicPosition = \<lparr>Part = 0, Index = 1\<rparr>, sicEncryptedSize = 66, sicPlainOffset = 0,
       sicPlainSize = 50\<rparr>]"
  by (simp add: fetchSegmentsForCommit_def exampleDB_def exampleSegmentRow_def positionKey_def)

lemma example_verify: "CommitObjectVerify exampleHelpers exampleCommitObject = None"
  by (simp add: CommitObjectVerify_def example_defs ObjectStream.truncate_def EncUnspecified_def)

lemma example_validate:
  "validateParts exampleConfig (fetchSegmentsForCommit exampleDB 7) = None"
  by (simp add: example_fetch validateParts_def partSizeOf_def exampleConfig_def int64_def)

lemma example_final:
  "convertToFinalSegments (fetchSegmentsForCommit exampleDB 7) =
     [\<lparr>stcPosition = \<lparr>Part = 0, Index = 0\<rparr>, OldPlainOffset = 0, stcPlainOffset = 0,
       stcPlainSize = 100, stcEncryptedSize = 116\<rparr>,
      \<lparr>stcPosition = \<lparr>Part = 0, Index = 1\<rparr>, OldPlainOffset = 0, stcPlainOffset = 100,
       stcPlainSize = 50, stcEncryptedSize = 66\<rparr>]"
  by (simp add: example_fetch convertToFinalSegments_def int64_def)

lemma example_fixed:
  "computeFixedSegmentSize (convertToFinalSegments (fetchSegmentsForCommit exampleDB 7)) = 100"
  by (simp add: example_final computeFixedSegmentSize_def uint32_def)

lemma example_offsets:
  "updateSegmentOffsets exampleDB 7
     (convertToFinalSegments (fetchSegmentsForCommit exampleDB 7)) =
   exampleDB\<lparr>segments := segments exampleDBCommitted\<rparr>"
  unfolding example_final
  by (simp add: updateSegmentOffsets_def exampleDB_def exampleDBCommitted_def
      exampleSegmentRow_def)

lemma example_precommit:
  "RunPrecommitConstraint exampleHelpers (commitObjectPrecommit exampleHelpers exampleCommitObject)
     (exampleDB\<lparr>segments := segments exampleDBCommitted\<rparr>) =
   Inr (\<lparr>HighestVersion = 1, DeletedObjectCount = 0, DeletedSegmentCount = 0\<rparr>,
        exampleDB\<lparr>segments := segments exampleDBCommitted\<rparr>)"
  by (simp add: example_defs commitObjectPrecommit_def LocationOf_def)

lemma example_commit:
  "CommitObject exampleHelpers exampleConfig exampleDB exampleCommitObject =
     Inr (exampleCommitted, exampleDBCommitted)"
proof -
  have sid: "StreamID exampleCommitObject = 7"
    by (simp add: exampleCommitObject_def)
  have fin: "finalizeObjectCommit (exampleDB\<lparr>segments := segments exampleDBCommitted\<rparr>)
       exampleCommitObject (committedWhereVersioned (Versioned exampleCommitObject))
       (nextVersionOf (Version exampleCommitObject) 1)
       (fetchSegmentsForCommit exampleDB 7) 150 182 100 =
     Inr (exampleCommitted\<lparr>SegmentCount := 0, TotalPlainSize := 0, TotalEncryptedSize := 0,
            FixedSegmentSize := 0, Status := Pending, ProjectID := 0, BucketName := [],
            ObjectKey := [], Version := 0, StreamID := 0\<rparr>, exampleDBCommitted)"
    unfolding example_fetch
    by (simp add: example_defs exampleDBCommitted_def exampleCommitted_def
        finalizeObjectCommit_def isPendingRowOf_def nextVersionOf_def committedWhereVersioned_def
        EncryptionIsZero_def finalizedRow_def RetentionVerify_def Enabled_def Let_def)
  have totals:
    "fold (\<lambda>seg acc. int64 (acc + stcPlainSize seg))
       (convertToFinalSegments (fetchSegmentsForCommit exampleDB 7)) 0 = 150"
    "fold (\<lambda>seg acc. int64 (acc + stcEncryptedSize seg))
       (convertToFinalSegments (fetchSegmentsForCommit exampleDB 7)) 0 = 182"
    unfolding example_final by (simp_all add: int64_def)
  have count: "int32 (int (length (fetchSegmentsForCommit exampleDB 7))) = 2"
    unfolding example_fetch by (simp add: int32_def)
  show ?thesis
    unfolding CommitObject_def example_verify sid Let_def example_validate example_fixed
      example_offsets example_precommit totals
    by (simp add: fin count)
      (simp add: exampleCommitted_def exampleCommitObject_def committedWhereVersioned_def
        nextVersionOf_def)
qed

subsection \<open>The version of the committed object\<close>

text \<open>
  C1 (as amended). For every successful CommitObject, the committed object keeps the
  caller-supplied version when that version is not below precommit.highest_version,
  and gets highest_version + 1 (in 64-bit arithmetic) only when the caller-supplied
  version is strictly below highest_version; the row stored for the stream carries that
  version and the committed status.
\<close>

theorem CommitObject_next_version:
  assumes "CommitObject h cfg db opts = Inr (obj, db')"
  shows "\<exists>pre db2.
           RunPrecommitConstraint h (commitObjectPrecommit h opts)
             (updateSegmentOffsets db (StreamID opts)
                (convertToFinalSegments (fetchSegmentsForCommit db (StreamID opts))))
             = Inr (pre, db2) \<and>
           Version obj =
             (if Version opts < HighestVersion pre then int64 (HighestVersion pre + 1)
              else Version opts) \<and>
           (\<exists>r \<in> set (objects db').
              project_id r = ProjectID opts \<and> bucket_name r = BucketName opts \<and>
              object_key r = ObjectKey opts \<and> stream_id r = StreamID opts \<and>
              version r = Version obj \<and> status r = committedWhereVersioned (Versioned opts))"
proof -
  from CommitObject_success [OF assms] obtain pre db2 obj0 where
    pre: "RunPrecommitConstraint h (commitObjectPrecommit h opts)
             (updateSegmentOffsets db (StreamID opts)
                (convertToFinalSegments (fetchSegmentsForCommit db (StreamID opts))))
             = Inr (pre, db2)"
    and fin: "finalizeObjectCommit db2 opts (committedWhereVersioned (Versioned opts))
             (nextVersionOf (Version opts) (HighestVersion pre))
             (fetchSegmentsForCommit db (StreamID opts))
             (fold (\<lambda>seg acc. int64 (acc + stcPlainSize seg))
                (convertToFinalSegments (fetchSegmentsForCommit db (StreamID opts))) 0)
             (fold (\<lambda>seg acc. int64 (acc + stcEncryptedSize seg))
                (convertToFinalSegments (fetchSegmentsForCommit db (StreamID opts))) 0)
             (computeFixedSegmentSize
                (convertToFinalSegments (fetchSegmentsForCommit db (StreamID opts))))
             = Inr (obj0, db')"
    and ver: "Version obj = nextVersionOf (Version opts) (HighestVersion pre)"
    by blast
  from finalizeObjectCommit_stored [OF fin] obtain row where
    row: "isPendingRowOf opts row"
    and stored: "finalizedRow opts (committedWhereVersioned (Versioned opts))
             (nextVersionOf (Version opts) (HighestVersion pre))
             (int (length (fetchSegmentsForCommit db (StreamID opts))))
             (fold (\<lambda>seg acc. int64 (acc + stcPlainSize seg))
                (convertToFinalSegments (fetchSegmentsForCommit db (StreamID opts))) 0)
             (fold (\<lambda>seg acc. int64 (acc + stcEncryptedSize seg))
                (convertToFinalSegments (fetchSegmentsForCommit db (StreamID opts))) 0)
             (computeFixedSegmentSize
                (convertToFinalSegments (fetchSegmentsForCommit db (StreamID opts)))) row
           \<in> set (objects db')" (is "?r \<in> _")
    by blast
  have "project_id ?r = ProjectID opts \<and> bucket_name ?r = BucketName opts \<and>
        object_key ?r = ObjectKey opts \<and> stream_id ?r = StreamID opts \<and>
        version ?r = Version obj \<and> status ?r = committedWhereVersioned (Versioned opts)"
    using row ver by (simp add: finalizedRow_def isPendingRowOf_def)
  with stored have "\<exists>r \<in> set (objects db').
              project_id r = ProjectID opts \<and> bucket_name r = BucketName opts \<and>
              object_key r = ObjectKey opts \<and> stream_id r = StreamID opts \<and>
              version r = Version obj \<and> status r = committedWhereVersioned (Versioned opts)"
    by blast
  with pre ver show ?thesis
    unfolding nextVersionOf_def by blast
qed

theorem CommitObject_next_version_witness:
  "\<exists>pre db2.
     RunPrecommitConstraint exampleHelpers
       (commitObjectPrecommit exampleHelpers exampleCommitObject)
       (updateSegmentOffsets exampleDB (StreamID exampleCommitObject)
          (convertToFinalSegments
             (fetchSegmentsForCommit exampleDB (StreamID exampleCommitObject))))
       = Inr (pre, db2) \<and>
     Version exampleCommitted =
       (if Version exampleCommitObject < HighestVersion pre then int64 (HighestVersion pre + 1)
        else Version exampleCommitObject) \<and>
     (\<exists>r \<in> set (objects exampleDBCommitted).
        project_id r = ProjectID exampleCommitObject \<and>
        bucket_name r = BucketName exampleCommitObject \<and>
        object_key r = ObjectKey exampleCommitObject \<and>
        stream_id r = StreamID exampleCommitObject \<and>
        version r = Version exampleCommitted \<and>
        status r = committedWhereVersioned (Versioned exampleCommitObject))"
  by (rule CommitObject_next_version [OF example_commit])

text \<open>
  The claim as stated, \<open>max(caller-supplied, highest_version + 1)\<close>, fails where the
  caller-supplied version equals highest_version: the pending object at version 1 is the
  only row of its location, precommit reports highest_version 1, and the object is
  committed at version 1, not 2.
\<close>

theorem CommitObject_version_counterexample:
  "committedVersion (CommitObject exampleHelpers exampleConfig exampleDB exampleCommitObject)
     = Some 1 \<and>
   precommitHighest
     (RunPrecommitConstraint exampleHelpers
        (commitObjectPrecommit exampleHelpers exampleCommitObject)
        (updateSegmentOffsets exampleDB (StreamID exampleCommitObject)
           (convertToFinalSegments
              (fetchSegmentsForCommit exampleDB (StreamID exampleCommitObject))))) = Some 1 \<and>
   Version exampleCommitObject = 1 \<and>
   max (Version exampleCommitObject) (1 + 1) = 2"
proof -
  have sid: "StreamID exampleCommitObject = 7" and ver: "Version exampleCommitObject = 1"
    by (simp_all add: exampleCommitObject_def)
  show ?thesis
    unfolding example_commit sid example_offsets example_precommit
    by (simp add: committedVersion_def precommitHighest_def ver exampleCommitted_def)
qed

subsection \<open>The fixed segment size\<close>

text \<open>
  C3. For every successful CommitObject over a non-empty segment list (of at most
  \<open>2^32\<close> segments, the range of the index), the fixed segment size of the committed
  object, also stored in its row, is the plain size of the first segment when the
  positions are the contiguous sequence (part 0, index i) and all segments but the last
  have that plain size (the last may differ; a single segment gives its own plain size),
  and it is -1 in every other case: a gap, a nonzero part, or differing sizes among the
  segments before the last. With two or more segments, the first segment's plain size is
  the plain size common to all segments but the last.
\<close>

theorem CommitObject_fixed_segment_size:
  assumes "CommitObject h cfg db opts = Inr (obj, db')"
    and "segs = fetchSegmentsForCommit db (StreamID opts)"
    and "segs \<noteq> []"
    and "length segs \<le> 2 ^ 32"
  shows "FixedSegmentSize obj =
           (if contiguousPositions segs \<and> nonLastShareSize segs (sicPlainSize (segs ! 0))
            then sicPlainSize (segs ! 0) else - 1) \<and>
         (\<forall>s. 2 \<le> length segs \<and> contiguousPositions segs \<and> nonLastShareSize segs s
              \<longrightarrow> FixedSegmentSize obj = s) \<and>
         (\<exists>r \<in> set (objects db').
            stream_id r = StreamID opts \<and> version r = Version obj \<and>
            fixed_segment_size r = FixedSegmentSize obj)"
proof -
  from CommitObject_success [OF assms(1)] obtain pre db2 obj0 where
    pre: "RunPrecommitConstraint h (commitObjectPrecommit h opts)
             (updateSegmentOffsets db (StreamID opts)
                (convertToFinalSegments (fetchSegmentsForCommit db (StreamID opts))))
             = Inr (pre, db2)"
    and fin: "finalizeObjectCommit db2 opts (committedWhereVersioned (Versioned opts))
             (nextVersionOf (Version opts) (HighestVersion pre))
             (fetchSegmentsForCommit db (StreamID opts))
             (fold (\<lambda>seg acc. int64 (acc + stcPlainSize seg))
                (convertToFinalSegments (fetchSegmentsForCommit db (StreamID opts))) 0)
             (fold (\<lambda>seg acc. int64 (acc + stcEncryptedSize seg))
                (convertToFinalSegments (fetchSegmentsForCommit db (StreamID opts))) 0)
             (computeFixedSegmentSize
                (convertToFinalSegments (fetchSegmentsForCommit db (StreamID opts))))
             = Inr (obj0, db')"
    and ver: "Version obj = nextVersionOf (Version opts) (HighestVersion pre)"
    and fixed: "FixedSegmentSize obj =
             computeFixedSegmentSize
               (convertToFinalSegments (fetchSegmentsForCommit db (StreamID opts)))"
    by blast
  have main: "FixedSegmentSize obj =
           (if contiguousPositions segs \<and> nonLastShareSize segs (sicPlainSize (segs ! 0))
            then sicPlainSize (segs ! 0) else - 1)"
    unfolding fixed assms(2) [symmetric]
    by (rule computeFixedSegmentSize_char [OF assms(3,4)])
  have common: "FixedSegmentSize obj = s"
    if "2 \<le> length segs" "contiguousPositions segs" "nonLastShareSize segs s" for s
  proof -
    from that(1,3) have "sicPlainSize (segs ! 0) = s"
      unfolding nonLastShareSize_def by auto
    with that(2,3) main show ?thesis by simp
  qed
  from finalizeObjectCommit_stored [OF fin] obtain row where
    row: "isPendingRowOf opts row"
    and stored: "finalizedRow opts (committedWhereVersioned (Versioned opts))
             (nextVersionOf (Version opts) (HighestVersion pre))
             (int (length (fetchSegmentsForCommit db (StreamID opts))))
             (fold (\<lambda>seg acc. int64 (acc + stcPlainSize seg))
                (convertToFinalSegments (fetchSegmentsForCommit db (StreamID opts))) 0)
             (fold (\<lambda>seg acc. int64 (acc + stcEncryptedSize seg))
                (convertToFinalSegments (fetchSegmentsForCommit db (StreamID opts))) 0)
             (computeFixedSegmentSize
                (convertToFinalSegments (fetchSegmentsForCommit db (StreamID opts)))) row
           \<in> set (objects db')" (is "?r \<in> _")
    by blast
  have "stream_id ?r = StreamID opts \<and> version ?r = Version obj \<and>
        fixed_segment_size ?r = FixedSegmentSize obj"
    using row ver fixed by (simp add: finalizedRow_def isPendingRowOf_def)
  with stored have "\<exists>r \<in> set (objects db').
            stream_id r = StreamID opts \<and> version r = Version obj \<and>
            fixed_segment_size r = FixedSegmentSize obj"
    by blast
  with main common show ?thesis by blast
qed

theorem CommitObject_fixed_segment_size_witness:
  "fetchSegmentsForCommit exampleDB (StreamID exampleCommitObject) \<noteq> [] \<and>
   length (fetchSegmentsForCommit exampleDB (StreamID exampleCommitObject)) \<le> 2 ^ 32 \<and>
   contiguousPositions (fetchSegmentsForCommit exampleDB (StreamID exampleCommitObject)) \<and>
   nonLastShareSize (fetchSegmentsForCommit exampleDB (StreamID exampleCommitObject)) 100 \<and>
   FixedSegmentSize exampleCommitted = 100"
proof -
  have sid: "StreamID exampleCommitObject = 7"
    by (simp add: exampleCommitObject_def)
  let ?segs = "fetchSegmentsForCommit exampleDB (StreamID exampleCommitObject)"
  have ne: "?segs \<noteq> []" and len: "length ?segs \<le> 2 ^ 32"
    by (simp_all add: sid example_fetch)
  have contiguous: "contiguousPositions ?segs"
    by (simp add: sid example_fetch contiguousPositions_def less_Suc_eq)
  have share: "nonLastShareSize ?segs 100"
    by (simp add: sid example_fetch nonLastShareSize_def)
  have first: "sicPlainSize (?segs ! 0) = 100"
    by (simp add: sid example_fetch)
  from CommitObject_fixed_segment_size [OF example_commit refl ne len]
  have "FixedSegmentSize exampleCommitted = 100"
    using contiguous share first by simp
  with ne len contiguous share show ?thesis by blast
qed

section \<open>Properties of the retention setters\<close>

lemma verifyWithoutStatus_active:
  assumes "infoExpiresAt info = None"
    and "RetentionVerify (infoRetention info) = None"
    and "Active now (infoRetention info)"
  shows "verifyWithoutStatus now info new =
           (if \<not> Enabled new \<or> RetainUntil new < RetainUntil (infoRetention info)
            then Some ErrObjectLock else None)"
  using assms by (simp add: verifyWithoutStatus_def)

lemma setObjectExactVersionRetention_hit:
  assumes "filter (\<lambda>r. atLocation (sevLocation opts) r \<and> version r = sevVersion opts)
             (objects db) = row # rest"
  shows "setObjectExactVersionRetention db opts =
           Inr (retentionWritten db (sevLocation opts) (sevVersion opts) (sevRetention opts))"
  using assms by (simp add: setObjectExactVersionRetention_def retentionWritten_def Let_def)

lemma lastCommittedRow_hit:
  assumes "lastCommittedRow db loc = Some row"
  shows "atLocation loc row \<and> row \<in> set (objects db)"
proof -
  let ?rows = "sort_key (\<lambda>r. - version r)
                 (filter (\<lambda>r. atLocation loc r \<and> IsCommitted (status r)) (objects db))"
  from assms obtain rest where "?rows = row # rest"
    by (auto simp: lastCommittedRow_def split: list.splits)
  then have "row \<in> set ?rows"
    by simp
  then show ?thesis
    by simp
qed

text \<open>
  C2 (as amended). For every object with an active retention (committed, without an
  expiry, its stored retention well formed) and every well-formed request,
  SetObjectExactVersionRetention and SetObjectLastCommittedRetention fail with the
  object-lock error kind exactly when the new retention is not enabled or its
  retain-until is strictly earlier than the current one; a new retain-until greater than
  or equal to the current one, in particular one exactly equal to it, is accepted and
  written: the call returns the table in which the rows of that version at the location
  carry the new mode and the new retain-until and every other row is as before.
\<close>

theorem SetObjectRetention_active:
  assumes "ObjectLocationVerify h loc = None"
    and "RetentionVerify new = None"
    and "expires_at row = None"
    and "RetentionVerify (infoRetention (infoOfRow row)) = None"
    and "Active now (infoRetention (infoOfRow row))"
  shows "(filter (\<lambda>r. atLocation loc r \<and> version r = v) (objects db) = row # rest \<and>
          IsCommitted (status row) \<longrightarrow>
            ((SetObjectExactVersionRetention h now db
                \<lparr>sevLocation = loc, sevVersion = v, sevRetention = new\<rparr> = Inl ErrObjectLock)
               = (\<not> Enabled new \<or> RetainUntil new < retain_until row)) \<and>
            (Enabled new \<and> retain_until row \<le> RetainUntil new \<longrightarrow>
               SetObjectExactVersionRetention h now db
                 \<lparr>sevLocation = loc, sevVersion = v, sevRetention = new\<rparr>
                 = Inr (retentionWritten db loc v new)))
         \<and>
         (lastCommittedRow db loc = Some row \<longrightarrow>
            ((SetObjectLastCommittedRetention h now db
                \<lparr>slcLocation = loc, slcRetention = new\<rparr> = Inl ErrObjectLock)
               = (\<not> Enabled new \<or> RetainUntil new < retain_until row)) \<and>
            (Enabled new \<and> retain_until row \<le> RetainUntil new \<longrightarrow>
               SetObjectLastCommittedRetention h now db
                 \<lparr>slcLocation = loc, slcRetention = new\<rparr>
                 = Inr (retentionWritten db loc (version row) new)))"
proof -
  have info: "infoExpiresAt (infoOfRow row) = None"
    using assms(3) by (simp add: infoOfRow_def)
  have until: "RetainUntil (infoRetention (infoOfRow row)) = retain_until row"
    by (simp add: infoOfRow_def)
  note vws = verifyWithoutStatus_active [OF info assms(4) assms(5), of new, unfolded until]
  have exact: "((SetObjectExactVersionRetention h now db
                \<lparr>sevLocation = loc, sevVersion = v, sevRetention = new\<rparr> = Inl ErrObjectLock)
               = (\<not> Enabled new \<or> RetainUntil new < retain_until row)) \<and>
            (Enabled new \<and> retain_until row \<le> RetainUntil new \<longrightarrow>
               SetObjectExactVersionRetention h now db
                 \<lparr>sevLocation = loc, sevVersion = v, sevRetention = new\<rparr>
                 = Inr (retentionWritten db loc v new))"
    if flt: "filter (\<lambda>r. atLocation loc r \<and> version r = v) (objects db) = row # rest"
      and st: "IsCommitted (status row)"
  proof -
    let ?opts = "\<lparr>sevLocation = loc, sevVersion = v, sevRetention = new\<rparr>"
    have st': "IsCommitted (infoStatus (infoOfRow row))"
      using st by (simp add: infoOfRow_def)
    from setObjectExactVersionRetention_hit [of ?opts db row rest] flt
    have upd: "setObjectExactVersionRetention db ?opts = Inr (retentionWritten db loc v new)"
      by simp
    have "SetObjectExactVersionRetention h now db ?opts =
            (if \<not> Enabled new \<or> RetainUntil new < retain_until row
             then Inl ErrObjectLock else Inr (retentionWritten db loc v new))"
      using assms(1,2) flt st' upd
      by (simp add: SetObjectExactVersionRetention_def verify_def vws)
    then show ?thesis
      by auto
  qed
  have last: "((SetObjectLastCommittedRetention h now db
                \<lparr>slcLocation = loc, slcRetention = new\<rparr> = Inl ErrObjectLock)
               = (\<not> Enabled new \<or> RetainUntil new < retain_until row)) \<and>
            (Enabled new \<and> retain_until row \<le> RetainUntil new \<longrightarrow>
               SetObjectLastCommittedRetention h now db
                 \<lparr>slcLocation = loc, slcRetention = new\<rparr>
                 = Inr (retentionWritten db loc (version row) new))"
    if lcr: "lastCommittedRow db loc = Some row"
  proof -
    let ?exact = "\<lparr>sevLocation = loc, sevVersion = version row, sevRetention = new\<rparr>"
    from lastCommittedRow_hit [OF lcr] have "atLocation loc row" "row \<in> set (objects db)"
      by simp_all
    then have "row \<in> set (filter (\<lambda>r. atLocation (sevLocation ?exact) r \<and>
                                      version r = sevVersion ?exact) (objects db))"
      by simp
    then have "filter (\<lambda>r. atLocation (sevLocation ?exact) r \<and>
                              version r = sevVersion ?exact) (objects db) \<noteq> []"
      by (metis empty_iff list.set(1))
    then obtain r rs where
      "filter (\<lambda>r. atLocation (sevLocation ?exact) r \<and> version r = sevVersion ?exact)
         (objects db) = r # rs"
      by (meson neq_Nil_conv)
    from setObjectExactVersionRetention_hit [OF this]
    have upd: "setObjectExactVersionRetention db ?exact =
                 Inr (retentionWritten db loc (version row) new)"
      by simp
    have "SetObjectLastCommittedRetention h now db \<lparr>slcLocation = loc, slcRetention = new\<rparr> =
            (if \<not> Enabled new \<or> RetainUntil new < retain_until row
             then Inl ErrObjectLock else Inr (retentionWritten db loc (version row) new))"
      using assms(1,2) lcr upd
      by (simp add: SetObjectLastCommittedRetention_def vws)
    then show ?thesis
      by auto
  qed
  from exact last show ?thesis
    by blast
qed


lemma example_locked_facts:
  "ObjectLocationVerify exampleHelpers exampleLocation = None"
  "RetentionVerify exampleLaterRetention = None"
  "expires_at exampleLockedRow = None"
  "RetentionVerify (infoRetention (infoOfRow exampleLockedRow)) = None"
  "Active 50 (infoRetention (infoOfRow exampleLockedRow))"
  "IsCommitted (status exampleLockedRow)"
  "filter (\<lambda>r. atLocation exampleLocation r \<and> version r = 1) (objects exampleDBLocked)
     = exampleLockedRow # []"
  "lastCommittedRow exampleDBLocked exampleLocation = Some exampleLockedRow"
  "Enabled exampleLaterRetention"
  "retain_until exampleLockedRow \<le> RetainUntil exampleLaterRetention"
  "version exampleLockedRow = 1"
  by (simp_all add: exampleHelpers_def exampleLocation_def exampleLaterRetention_def
      exampleLockedRow_def exampleObjectRow_def exampleDBLocked_def RetentionVerify_def
      Enabled_def Active_def infoOfRow_def IsCommitted_def atLocation_def lastCommittedRow_def)

lemma example_later_written:
  "retentionWritten exampleDBLocked exampleLocation 1 exampleLaterRetention =
     \<lparr>objects = [exampleLockedRow\<lparr>retain_until := 200\<rparr>], segments = []\<rparr>"
  by (simp add: retentionWritten_def exampleDBLocked_def exampleLocation_def
      exampleLaterRetention_def exampleLockedRow_def exampleObjectRow_def atLocation_def)

theorem SetObjectRetention_active_witness:
  "SetObjectExactVersionRetention exampleHelpers 50 exampleDBLocked
     \<lparr>sevLocation = exampleLocation, sevVersion = 1, sevRetention = exampleLaterRetention\<rparr>
     \<noteq> Inl ErrObjectLock \<and>
   SetObjectExactVersionRetention exampleHelpers 50 exampleDBLocked
     \<lparr>sevLocation = exampleLocation, sevVersion = 1, sevRetention = exampleLaterRetention\<rparr>
     = Inr \<lparr>objects = [exampleLockedRow\<lparr>retain_until := 200\<rparr>], segments = []\<rparr> \<and>
   SetObjectLastCommittedRetention exampleHelpers 50 exampleDBLocked
     \<lparr>slcLocation = exampleLocation, slcRetention = exampleLaterRetention\<rparr>
     \<noteq> Inl ErrObjectLock \<and>
   SetObjectLastCommittedRetention exampleHelpers 50 exampleDBLocked
     \<lparr>slcLocation = exampleLocation, slcRetention = exampleLaterRetention\<rparr>
     = Inr \<lparr>objects = [exampleLockedRow\<lparr>retain_until := 200\<rparr>], segments = []\<rparr> \<and>
   retain_until exampleLockedRow = 100"
proof -
  have old: "retain_until exampleLockedRow = 100"
    by (simp add: exampleLockedRow_def)
  from SetObjectRetention_active [OF example_locked_facts(1-5),
      of 1 exampleDBLocked "[]"] example_locked_facts(6-11) example_later_written old
  show ?thesis by simp
qed

text \<open>
  The claim as stated fails where the new retain-until equals the current one: the
  object is under a compliance retention until instant 100, which is active at instant
  50, and setting the retention until 100 again succeeds through both operations.
\<close>

theorem SetObjectRetention_equal_counterexample:
  "Active 50 (infoRetention (infoOfRow exampleLockedRow)) \<and>
   RetainUntil exampleSameRetention \<le> retain_until exampleLockedRow \<and>
   SetObjectExactVersionRetention exampleHelpers 50 exampleDBLocked
     \<lparr>sevLocation = exampleLocation, sevVersion = 1, sevRetention = exampleSameRetention\<rparr>
     = Inr exampleDBLocked \<and>
   SetObjectLastCommittedRetention exampleHelpers 50 exampleDBLocked
     \<lparr>slcLocation = exampleLocation, slcRetention = exampleSameRetention\<rparr>
     = Inr exampleDBLocked"
  by (simp add: SetObjectExactVersionRetention_def SetObjectLastCommittedRetention_def
      setObjectExactVersionRetention_def verify_def verifyWithoutStatus_def
      exampleHelpers_def exampleLocation_def exampleSameRetention_def
      exampleLockedRow_def exampleObjectRow_def exampleDBLocked_def RetentionVerify_def
      Enabled_def Active_def infoOfRow_def IsCommitted_def atLocation_def lastCommittedRow_def)

section \<open>Properties of BeginObjectNextVersion\<close>

lemma sort_key_desc_head:
  assumes "sort_key (\<lambda>r. - version r) xs = y # ys"
  shows "y \<in> set xs \<and> (\<forall>x \<in> set xs. version x \<le> version y)"
proof -
  let ?f = "\<lambda>r. - version r"
  have "sorted (map ?f (sort_key ?f xs))"
    by (rule sorted_sort_key)
  with assms have "\<forall>z \<in> set ys. ?f y \<le> ?f z"
    by simp
  moreover have "set xs = set (y # ys)"
    using assms by (metis set_sort)
  ultimately show ?thesis
    by auto
qed

lemma highestVersionPlusOne_None:
  "highestVersionPlusOne db loc = None \<longleftrightarrow> versionsAt db loc = {}"
proof -
  let ?rows = "filter (atLocation loc) (objects db)"
  have "sort_key (\<lambda>r. - version r) ?rows = [] \<longleftrightarrow> ?rows = []"
    by (metis length_sort length_0_conv)
  moreover have "?rows = [] \<longleftrightarrow> versionsAt db loc = {}"
    by (auto simp: versionsAt_def filter_empty_conv)
  ultimately have "sort_key (\<lambda>r. - version r) ?rows = [] \<longleftrightarrow> versionsAt db loc = {}"
    by simp
  then show ?thesis
    by (cases "sort_key (\<lambda>r. - version r) ?rows") (simp_all add: highestVersionPlusOne_def)
qed

lemma highestVersionPlusOne_Some:
  assumes "highestVersionPlusOne db loc = Some v"
  shows "versionsAt db loc \<noteq> {} \<and> v = Max (versionsAt db loc) + 1"
proof -
  let ?rows = "filter (atLocation loc) (objects db)"
  from assms obtain y ys where srt: "sort_key (\<lambda>r. - version r) ?rows = y # ys"
    and v: "v = version y + 1"
    by (auto simp: highestVersionPlusOne_def split: list.splits)
  from sort_key_desc_head [OF srt] have y: "y \<in> set ?rows"
    and top: "\<forall>x \<in> set ?rows. version x \<le> version y"
    by simp_all
  have fin: "finite (versionsAt db loc)"
    by (simp add: versionsAt_def)
  have mem: "version y \<in> versionsAt db loc"
    using y by (auto simp: versionsAt_def)
  have "\<forall>w \<in> versionsAt db loc. w \<le> version y"
    using top by (auto simp: versionsAt_def)
  with fin mem have "Max (versionsAt db loc) = version y"
    by (meson Max_eqI)
  with mem v show ?thesis
    by auto
qed

text \<open>
  C4. For every (project, bucket, key), a successful BeginObjectNextVersion appends a
  pending row at that location whose version, the one returned, is
  coalesce(max(existing versions at the location) + 1, 1): it is strictly greater than
  every version already present at the location, and it is 1 when the location has no
  row.
\<close>

theorem BeginObjectNextVersion_version:
  assumes "BeginObjectNextVersion h now db opts = Inr (obj, db')"
  shows "Version obj =
           (if versionsAt db (LocationOf opts) = {} then 1
            else Max (versionsAt db (LocationOf opts)) + 1) \<and>
         (\<forall>v \<in> versionsAt db (LocationOf opts). v < Version obj) \<and>
         Status obj = Pending \<and>
         (\<exists>row. objects db' = objects db @ [row] \<and> atLocation (LocationOf opts) row \<and>
                stream_id row = StreamID opts \<and> version row = Version obj \<and>
                status row = Pending)"
proof -
  let ?loc = "LocationOf opts"
  define opts1 where "opts1 =
    (if bnZombieDeletionDeadline opts = None
     then opts\<lparr>bnZombieDeletionDeadline := Some (now + defaultZombieDeletionPeriod)\<rparr>
     else opts)"
  have loc1: "LocationOf opts1 = ?loc" and sid1: "StreamID opts1 = StreamID opts"
    by (simp_all add: opts1_def LocationOf_def)
  from assms obtain st v created where
    ins: "insertPendingObject now db opts1 = Inr ((st, v, created), db')"
    and obj: "Version obj = v" "Status obj = st"
    by (auto simp: BeginObjectNextVersion_def Let_def opts1_def [symmetric]
        split: option.splits sum.splits prod.splits)
  let ?v = "coalesce (highestVersionPlusOne db ?loc) 1"
  have fields: "ProjectID opts1 = ProjectID opts" "BucketName opts1 = BucketName opts"
    "ObjectKey opts1 = ObjectKey opts"
    by (simp_all add: opts1_def)
  from ins have v: "v = ?v" and st: "st = Pending"
    by (auto simp: insertPendingObject_def Let_def loc1 split: if_splits)
  from ins have "\<exists>row. objects db' = objects db @ [row] \<and>
      project_id row = ProjectID opts1 \<and> bucket_name row = BucketName opts1 \<and>
      object_key row = ObjectKey opts1 \<and> stream_id row = StreamID opts1 \<and>
      version row = v \<and> status row = Pending"
    by (auto simp: insertPendingObject_def Let_def split: if_splits)
  then have row: "\<exists>row. objects db' = objects db @ [row] \<and> atLocation ?loc row \<and>
                stream_id row = StreamID opts \<and> version row = v \<and> status row = Pending"
    unfolding fields sid1 by (simp add: atLocation_def LocationOf_def)
  have val: "?v = (if versionsAt db ?loc = {} then 1 else Max (versionsAt db ?loc) + 1)"
  proof (cases "highestVersionPlusOne db ?loc")
    case None
    then show ?thesis
      by (simp add: coalesce_def highestVersionPlusOne_None [symmetric])
  next
    case (Some w)
    from highestVersionPlusOne_Some [OF Some] Some show ?thesis
      by (simp add: coalesce_def)
  qed
  have above: "\<forall>w \<in> versionsAt db ?loc. w < ?v"
  proof
    fix w assume w: "w \<in> versionsAt db ?loc"
    then have ne: "versionsAt db ?loc \<noteq> {}"
      by auto
    have "finite (versionsAt db ?loc)"
      by (simp add: versionsAt_def)
    with w have "w \<le> Max (versionsAt db ?loc)"
      by simp
    with ne val show "w < ?v"
      by simp
  qed
  from val above row obj v st show ?thesis
    by simp
qed

lemma example_begin_verify: "BeginObjectNextVersionVerify exampleHelpers exampleBegin = None"
  by (simp add: BeginObjectNextVersionVerify_def exampleHelpers_def exampleBegin_def
      ObjectStream.truncate_def NextVersion_def RetentionVerify_def Enabled_def)

lemma example_begin_highest:
  "highestVersionPlusOne exampleDBCommitted (LocationOf exampleBegin) = Some 2"
  by (simp add: highestVersionPlusOne_def exampleBegin_def LocationOf_def atLocation_def
      exampleDBCommitted_def exampleObjectRow_def)

lemma BeginObjectNextVersion_succeeds:
  assumes "BeginObjectNextVersionVerify h opts = None"
    and "coalesce (highestVersionPlusOne db (LocationOf opts)) 1 \<le> 2 ^ 63 - 1"
  shows "\<exists>obj db'. BeginObjectNextVersion h now db opts = Inr (obj, db')"
proof -
  define opts1 where "opts1 =
    (if bnZombieDeletionDeadline opts = None
     then opts\<lparr>bnZombieDeletionDeadline := Some (now + defaultZombieDeletionPeriod)\<rparr>
     else opts)"
  have loc1: "LocationOf opts1 = LocationOf opts"
    by (simp add: opts1_def LocationOf_def)
  from assms(2) have "\<exists>r db'. insertPendingObject now db opts1 = Inr (r, db')"
    by (simp add: insertPendingObject_def Let_def loc1)
  then obtain st v created db' where
    "insertPendingObject now db opts1 = Inr ((st, v, created), db')"
    by (metis prod_cases3)
  then show ?thesis
    using assms(1)
    by (simp add: BeginObjectNextVersion_def Let_def opts1_def [symmetric])
qed

lemma example_begin:
  "\<exists>obj db'. BeginObjectNextVersion exampleHelpers 20 exampleDBCommitted exampleBegin =
     Inr (obj, db')"
  by (rule BeginObjectNextVersion_succeeds)
    (simp_all add: example_begin_verify example_begin_highest coalesce_def)

lemma example_versionsAt:
  "versionsAt exampleDBCommitted (LocationOf exampleBegin) = {1}"
  by (simp add: versionsAt_def exampleBegin_def LocationOf_def atLocation_def
      exampleDBCommitted_def exampleObjectRow_def)

theorem BeginObjectNextVersion_version_witness:
  "\<exists>obj db'. BeginObjectNextVersion exampleHelpers 20 exampleDBCommitted exampleBegin =
       Inr (obj, db') \<and>
     Version obj = 2 \<and>
     (\<forall>v \<in> versionsAt exampleDBCommitted (LocationOf exampleBegin). v < Version obj)"
proof -
  from example_begin obtain obj db' where
    run: "BeginObjectNextVersion exampleHelpers 20 exampleDBCommitted exampleBegin =
            Inr (obj, db')"
    by blast
  from BeginObjectNextVersion_version [OF run]
  have "Version obj = 2"
    and "\<forall>v \<in> versionsAt exampleDBCommitted (LocationOf exampleBegin). v < Version obj"
    by (simp_all add: example_versionsAt)
  with run show ?thesis
    by blast
qed


section \<open>Properties of UpdateSegmentPieces\<close>

lemma updatedPiecesRow_no_match:
  "\<not> piecesMatch s old \<Longrightarrow> updatedPiecesRow opts old new s = s"
  by (simp add: updatedPiecesRow_def)

lemma updatedPiecesRow_match:
  "piecesMatch s old \<Longrightarrow>
   updatedPiecesRow opts old new s =
     s\<lparr>remote_alias_pieces := aliasPiecesValue new, redundancy := NewRedundancy opts,
       repaired_at := (if NewRepairedAt opts \<noteq> 0 then Some (NewRepairedAt opts)
                       else repaired_at s)\<rparr>"
  by (simp add: updatedPiecesRow_def)

lemma updatedPiecesRow_at [simp]:
  "segmentAt sid pos (updatedPiecesRow opts old new s) = segmentAt sid pos s"
  by (simp add: updatedPiecesRow_def segmentAt_def)

lemma updatedPiecesRow_idem:
  "updatedPiecesRow opts old new (updatedPiecesRow opts old new s) =
   updatedPiecesRow opts old new s"
proof (cases "piecesMatch s old")
  case False
  then show ?thesis by (simp add: updatedPiecesRow_no_match)
next
  case True
  show ?thesis
  proof (cases "piecesMatch (updatedPiecesRow opts old new s) old")
    case False
    then show ?thesis by (simp add: updatedPiecesRow_no_match)
  next
    case again: True
    show ?thesis
      unfolding updatedPiecesRow_match [OF again]
      by (simp add: updatedPiecesRow_match [OF True])
  qed
qed

lemma adapterUpdateSegmentPieces_missing:
  "segmentRowsOf opts db = [] \<Longrightarrow>
   adapterUpdateSegmentPieces db opts old new = (Inl ErrSegmentNotFound, db)"
  by (simp add: adapterUpdateSegmentPieces_def segmentRowsOf_def Let_def)

lemma adapterUpdateSegmentPieces_found:
  "segmentRowsOf opts db = s # others \<Longrightarrow>
   adapterUpdateSegmentPieces db opts old new =
     (Inr (aliasPiecesScan (remote_alias_pieces (updatedPiecesRow opts old new s))),
      writePieces opts old new db)"
  by (simp add: adapterUpdateSegmentPieces_def segmentRowsOf_def writePieces_def Let_def)

lemma segmentRowsOf_writePieces:
  "segmentRowsOf opts (writePieces opts old new db) =
   map (updatedPiecesRow opts old new) (segmentRowsOf opts db)"
proof -
  have "filter (segmentAt sid pos)
          (map (\<lambda>s. if segmentAt sid pos s then updatedPiecesRow opts old new s else s) xs) =
        map (updatedPiecesRow opts old new) (filter (segmentAt sid pos) xs)" for sid pos xs
    by (induction xs) auto
  then show ?thesis
    by (simp add: segmentRowsOf_def writePieces_def)
qed

lemma writePieces_idem:
  "writePieces opts old new (writePieces opts old new db) = writePieces opts old new db"
  by (simp add: writePieces_def updatedPiecesRow_idem cong: if_cong)

lemma writePieces_single_no_match:
  assumes "segmentRowsOf opts db = [s]" and "\<not> piecesMatch s old"
  shows "writePieces opts old new db = db"
proof -
  have "\<And>r. r \<in> set (segments db) \<Longrightarrow> segmentAt (uspStreamID opts) (uspPosition opts) r
          \<Longrightarrow> r = s"
  proof -
    fix r assume "r \<in> set (segments db)" "segmentAt (uspStreamID opts) (uspPosition opts) r"
    then have "r \<in> set (segmentRowsOf opts db)"
      by (simp add: segmentRowsOf_def)
    with assms(1) show "r = s" by simp
  qed
  then have "map (\<lambda>r. if segmentAt (uspStreamID opts) (uspPosition opts) r
                        then updatedPiecesRow opts old new r else r) (segments db) = segments db"
    using assms(2) by (intro map_idI) (auto simp: updatedPiecesRow_no_match)
  then show ?thesis
    by (simp add: writePieces_def)
qed

lemma adapterUpdateSegmentPieces_idem:
  assumes "adapterUpdateSegmentPieces db opts old new = (r, db')"
  shows "adapterUpdateSegmentPieces db' opts old new = (r, db')"
proof (cases "segmentRowsOf opts db")
  case Nil
  with assms show ?thesis
    by (simp add: adapterUpdateSegmentPieces_missing)
next
  case (Cons s others)
  from assms have r: "r = Inr (aliasPiecesScan (remote_alias_pieces (updatedPiecesRow opts old new s)))"
    and db': "db' = writePieces opts old new db"
    by (simp_all add: adapterUpdateSegmentPieces_found [OF Cons])
  have "segmentRowsOf opts db' =
          updatedPiecesRow opts old new s # map (updatedPiecesRow opts old new) others"
    by (simp add: db' segmentRowsOf_writePieces Cons)
  from adapterUpdateSegmentPieces_found [OF this] show ?thesis
    by (simp add: r db' updatedPiecesRow_idem writePieces_idem)
qed

lemma tryAdapters_idem:
  "tryAdapters opts old new ads = (r, ads') \<Longrightarrow> tryAdapters opts old new ads' = (r, ads')"
proof (induction ads arbitrary: r ads')
  case Nil
  then show ?case by simp
next
  case (Cons a ads)
  obtain name db where a: "a = (name, db)" by (cases a)
  show ?case
  proof (cases "DBAdapterName opts = [] \<or> DBAdapterName opts = name")
    case False
    obtain r0 rest' where rec: "tryAdapters opts old new ads = (r0, rest')"
      by (cases "tryAdapters opts old new ads")
    with Cons.prems False a have "r = r0" "ads' = (name, db) # rest'"
      by simp_all
    with Cons.IH [OF rec] False show ?thesis
      by simp
  next
    case True
    obtain ra db' where ad: "adapterUpdateSegmentPieces db opts old new = (ra, db')"
      by (cases "adapterUpdateSegmentPieces db opts old new")
    note ad' = adapterUpdateSegmentPieces_idem [OF ad]
    show ?thesis
    proof (cases ra)
      case (Inr ps)
      with Cons.prems True a ad have "r = Inr ps" "ads' = (name, db') # ads"
        by simp_all
      with True ad' Inr show ?thesis
        by simp
    next
      case (Inl e)
      show ?thesis
      proof (cases "e = ErrSegmentNotFound")
        case False
        with Cons.prems True a ad Inl have "r = Inl e" "ads' = (name, db') # ads"
          by simp_all
        with True ad' Inl False show ?thesis
          by simp
      next
        case nf: True
        obtain r0 rest' where rec: "tryAdapters opts old new ads = (r0, rest')"
          by (cases "tryAdapters opts old new ads")
        with Cons.prems True a ad Inl nf have "r = r0" "ads' = (name, db') # rest'"
          by simp_all
        with Cons.IH [OF rec] True ad' Inl nf show ?thesis
          by simp
      qed
    qed
  qed
qed

lemma UpdateSegmentPieces_idem:
  assumes "UpdateSegmentPieces h adapters opts = (e, adapters')"
  shows "UpdateSegmentPieces h adapters' opts = (e, adapters')"
proof (cases "UpdateSegmentPiecesVerify h opts")
  case (Some e')
  from assms have "e = Some e'" "adapters' = adapters"
    by (simp_all add: UpdateSegmentPieces_def Some)
  then show ?thesis
    by (simp add: UpdateSegmentPieces_def Some)
next
  case None
  show ?thesis
  proof (cases "EnsurePiecesToAliases h (OldPieces opts)")
    case (Inl x)
    from assms have "e = Some Error" "adapters' = adapters"
      by (simp_all add: UpdateSegmentPieces_def None Inl)
    then show ?thesis
      by (simp add: UpdateSegmentPieces_def None Inl)
  next
    case old: (Inr oldPieces)
    show ?thesis
    proof (cases "EnsurePiecesToAliases h (NewPieces opts)")
      case (Inl x)
      from assms have "e = Some Error" "adapters' = adapters"
        by (simp_all add: UpdateSegmentPieces_def None old Inl)
      then show ?thesis
        by (simp add: UpdateSegmentPieces_def None old Inl)
    next
      case new: (Inr newPieces)
      obtain r ads where t: "tryAdapters opts oldPieces newPieces adapters = (r, ads)"
        by (cases "tryAdapters opts oldPieces newPieces adapters")
      have run: "UpdateSegmentPieces h xs opts =
          (case tryAdapters opts oldPieces newPieces xs of
             (Inl e, adapters') \<Rightarrow> (Some e, adapters')
           | (Inr resultPieces, adapters') \<Rightarrow>
               if resultPieces = [] then (Some ErrSegmentNotFound, adapters')
               else if \<not> EqualAliasPieces newPieces resultPieces
               then (Some ErrValueChanged, adapters')
               else (None, adapters'))" for xs
        by (simp add: UpdateSegmentPieces_def None old new)
      from assms have ads: "ads = adapters'"
        unfolding run t by (auto split: sum.splits if_splits)
      from tryAdapters_idem [OF t] ads
      have t': "tryAdapters opts oldPieces newPieces adapters' = (r, adapters')"
        by simp
      from assms show ?thesis
        unfolding run t t' ads .
    qed
  qed
qed

lemma tryAdapters_skip:
  assumes "\<forall>(n, d) \<in> set pre. \<not> eligible opts n \<or> segmentRowsOf opts d = []"
  shows "tryAdapters opts old new (pre @ rest) =
           (fst (tryAdapters opts old new rest), pre @ snd (tryAdapters opts old new rest))"
  using assms
proof (induction pre)
  case Nil
  then show ?case by simp
next
  case (Cons a pre)
  obtain n d where a: "a = (n, d)" by (cases a)
  from Cons.prems have IH: "tryAdapters opts old new (pre @ rest) =
      (fst (tryAdapters opts old new rest), pre @ snd (tryAdapters opts old new rest))"
    by (intro Cons.IH) simp
  from Cons.prems a have "\<not> eligible opts n \<or> segmentRowsOf opts d = []"
    by simp
  then show ?case
    by (auto simp: a IH eligible_def adapterUpdateSegmentPieces_missing)
qed

lemma tryAdapters_found:
  assumes "\<forall>(n, d) \<in> set pre. \<not> eligible opts n \<or> segmentRowsOf opts d = []"
    and "eligible opts name"
    and "segmentRowsOf opts db = s # others"
  shows "tryAdapters opts old new (pre @ (name, db) # post) =
           (Inr (aliasPiecesScan (remote_alias_pieces (updatedPiecesRow opts old new s))),
            pre @ (name, writePieces opts old new db) # post)"
proof -
  have "tryAdapters opts old new ((name, db) # post) =
          (Inr (aliasPiecesScan (remote_alias_pieces (updatedPiecesRow opts old new s))),
           (name, writePieces opts old new db) # post)"
    using assms(2) by (simp add: eligible_def adapterUpdateSegmentPieces_found [OF assms(3)])
  then show ?thesis
    by (simp add: tryAdapters_skip [OF assms(1)])
qed


lemma UpdateSegmentPieces_found:
  assumes "UpdateSegmentPiecesVerify h opts = None"
    and "EnsurePiecesToAliases h (OldPieces opts) = Inr oldPieces"
    and "EnsurePiecesToAliases h (NewPieces opts) = Inr newPieces"
    and "\<forall>(n, d) \<in> set pre. \<not> eligible opts n \<or> segmentRowsOf opts d = []"
    and "eligible opts name"
    and "segmentRowsOf opts db = s # others"
  shows "UpdateSegmentPieces h (pre @ (name, db) # post) opts =
           ((let resultPieces =
                   aliasPiecesScan (remote_alias_pieces (updatedPiecesRow opts oldPieces newPieces s))
             in if resultPieces = [] then Some ErrSegmentNotFound
                else if newPieces \<noteq> resultPieces then Some ErrValueChanged
                else None),
            pre @ (name, writePieces opts oldPieces newPieces db) # post)"
  by (simp add: UpdateSegmentPieces_def assms(1-3) tryAdapters_found [OF assms(4-6)]
      EqualAliasPieces_def Let_def)

lemma stored_match:
  assumes "remote_alias_pieces s = Some storedPieces" and "storedPieces \<noteq> []"
  shows "piecesMatch s oldPieces \<longleftrightarrow> storedPieces = oldPieces"
  using assms by (auto simp: piecesMatch_def aliasPiecesValue_def)

subsection \<open>The example repairs\<close>

lemma example_repair_facts:
  "UpdateSegmentPiecesVerify exampleHelpers (exampleRepair a b) = None"
  "EnsurePiecesToAliases exampleHelpers (OldPieces (exampleRepair a b)) = Inr (exampleAliases a)"
  "EnsurePiecesToAliases exampleHelpers (NewPieces (exampleRepair a b)) = Inr (exampleAliases b)"
  "exampleAliases b \<noteq> []"
  "\<forall>(n, d) \<in> set []. \<not> eligible (exampleRepair a b) n \<or> segmentRowsOf (exampleRepair a b) d = []"
  "eligible (exampleRepair a b) ''pg''"
  "segmentRowsOf (exampleRepair a b) exampleDBCommitted = [exampleSegmentRow 7 0 0 100]"
  "remote_alias_pieces (exampleSegmentRow 7 0 0 100) = Some (exampleAliases 2)"
  "exampleAliases 2 \<noteq> []"
  by (simp_all add: UpdateSegmentPiecesVerify_def exampleHelpers_def exampleRepair_def
      examplePieces_def exampleAliases_def RedundancyIsZero_def eligible_def segmentRowsOf_def
      segmentAt_def exampleDBCommitted_def exampleSegmentRow_def)

text \<open>
  C5 (as amended). For every valid UpdateSegmentPieces call on an existing remote
  segment (stored piece-set not empty), the database is left unchanged unless the stored
  piece-set equals the caller-supplied old piece-set. When it differs, the call fails
  with the value-changed error kind, except when the stored piece-set already equals
  the new piece-set: then the call succeeds without writing. When it matches, the call
  succeeds and the row is updated to the new pieces, the new redundancy and, if
  supplied, the new repaired_at.
\<close>

theorem UpdateSegmentPieces_conditional:
  assumes "UpdateSegmentPiecesVerify h opts = None"
    and "EnsurePiecesToAliases h (OldPieces opts) = Inr oldPieces"
    and "EnsurePiecesToAliases h (NewPieces opts) = Inr newPieces"
    and "newPieces \<noteq> []"
    and "\<forall>(n, d) \<in> set pre. \<not> eligible opts n \<or> segmentRowsOf opts d = []"
    and "eligible opts name"
    and "segmentRowsOf opts db = [s]"
    and "remote_alias_pieces s = Some storedPieces"
    and "storedPieces \<noteq> []"
  shows "(storedPieces \<noteq> oldPieces \<longrightarrow>
            UpdateSegmentPieces h (pre @ (name, db) # post) opts =
              (if storedPieces = newPieces then None else Some ErrValueChanged,
               pre @ (name, db) # post)) \<and>
         (storedPieces = oldPieces \<longrightarrow>
            UpdateSegmentPieces h (pre @ (name, db) # post) opts =
              (None, pre @ (name, writePieces opts oldPieces newPieces db) # post) \<and>
            segmentRowsOf opts (writePieces opts oldPieces newPieces db) =
              [s\<lparr>remote_alias_pieces := Some newPieces,
                 redundancy := NewRedundancy opts,
                 repaired_at := (if NewRepairedAt opts \<noteq> 0 then Some (NewRepairedAt opts)
                                 else repaired_at s)\<rparr>])"
proof (intro conjI impI)
  note found = UpdateSegmentPieces_found [OF assms(1,2,3,5,6,7), of post]
  note match = stored_match [OF assms(8,9), of oldPieces]
  {
    assume differs: "storedPieces \<noteq> oldPieces"
    then have nomatch: "\<not> piecesMatch s oldPieces"
      by (simp add: match)
    have same: "writePieces opts oldPieces newPieces db = db"
      by (rule writePieces_single_no_match [OF assms(7) nomatch])
    have "aliasPiecesScan (remote_alias_pieces (updatedPiecesRow opts oldPieces newPieces s))
            = storedPieces"
      by (simp add: updatedPiecesRow_no_match [OF nomatch] assms(8) aliasPiecesScan_def)
    with found same assms(9)
    show "UpdateSegmentPieces h (pre @ (name, db) # post) opts =
              (if storedPieces = newPieces then None else Some ErrValueChanged,
               pre @ (name, db) # post)"
      by (auto simp: Let_def)
  }
  {
    assume equal: "storedPieces = oldPieces"
    then have ismatch: "piecesMatch s oldPieces"
      by (simp add: match)
    have row: "updatedPiecesRow opts oldPieces newPieces s =
        s\<lparr>remote_alias_pieces := Some newPieces, redundancy := NewRedundancy opts,
          repaired_at := (if NewRepairedAt opts \<noteq> 0 then Some (NewRepairedAt opts)
                          else repaired_at s)\<rparr>"
      using assms(4) by (simp add: updatedPiecesRow_match [OF ismatch] aliasPiecesValue_def)
    then have "aliasPiecesScan (remote_alias_pieces (updatedPiecesRow opts oldPieces newPieces s))
            = newPieces"
      by (simp add: aliasPiecesScan_def)
    with found assms(4)
    show "UpdateSegmentPieces h (pre @ (name, db) # post) opts =
              (None, pre @ (name, writePieces opts oldPieces newPieces db) # post)"
      by (simp add: Let_def)
    show "segmentRowsOf opts (writePieces opts oldPieces newPieces db) =
              [s\<lparr>remote_alias_pieces := Some newPieces,
                 redundancy := NewRedundancy opts,
                 repaired_at := (if NewRepairedAt opts \<noteq> 0 then Some (NewRepairedAt opts)
                                 else repaired_at s)\<rparr>]"
      by (simp add: segmentRowsOf_writePieces assms(7) row)
  }
qed


theorem UpdateSegmentPieces_conditional_witness:
  "UpdateSegmentPieces exampleHelpers exampleAdapters (exampleRepair 5 4) =
     (Some ErrValueChanged, exampleAdapters) \<and>
   UpdateSegmentPieces exampleHelpers exampleAdapters (exampleRepair 2 4) =
     (None, [(''pg'', writePieces (exampleRepair 2 4) (exampleAliases 2) (exampleAliases 4)
                       exampleDBCommitted)]) \<and>
   segmentRowsOf (exampleRepair 2 4)
     (writePieces (exampleRepair 2 4) (exampleAliases 2) (exampleAliases 4) exampleDBCommitted) =
     [(exampleSegmentRow 7 0 0 100)
        \<lparr>remote_alias_pieces := Some (exampleAliases 4),
         redundancy := NewRedundancy (exampleRepair 2 4)\<rparr>]"
proof -
  have ne: "exampleAliases 2 \<noteq> exampleAliases 5" "exampleAliases 2 \<noteq> exampleAliases 4"
    by (simp_all add: exampleAliases_def)
  have at: "NewRepairedAt (exampleRepair 2 4) = 0"
    by (simp add: exampleRepair_def)
  from UpdateSegmentPieces_conditional
         [where opts = "exampleRepair 5 4" and post = "[]", OF example_repair_facts(1-9)]
    UpdateSegmentPieces_conditional
         [where opts = "exampleRepair 2 4" and post = "[]", OF example_repair_facts(1-9)]
  show ?thesis
    using ne by (simp add: exampleAdapters_def at)
qed

text \<open>
  The claim as stated fails where the stored piece-set differs from the old piece-set of
  the request and equals the new one: the stored set is \<open>{(0, 1), (1, 2), (2, 3)}\<close>,
  the request replaces \<open>{(0, 1), (1, 4), (2, 3)}\<close> by the stored set, and the call
  returns no error, not value-changed.
\<close>

theorem UpdateSegmentPieces_stale_counterexample:
  "remote_alias_pieces (exampleSegmentRow 7 0 0 100) = Some (exampleAliases 2) \<and>
   EnsurePiecesToAliases exampleHelpers (OldPieces (exampleRepair 4 2)) = Inr (exampleAliases 4) \<and>
   exampleAliases 2 \<noteq> exampleAliases 4 \<and>
   UpdateSegmentPieces exampleHelpers exampleAdapters (exampleRepair 4 2) =
     (None, exampleAdapters)"
proof -
  have ne: "exampleAliases 2 \<noteq> exampleAliases 4"
    by (simp add: exampleAliases_def)
  then have nomatch: "\<not> piecesMatch (exampleSegmentRow 7 0 0 100) (exampleAliases 4)"
    by (simp add: stored_match [OF example_repair_facts(8,9)])
  from UpdateSegmentPieces_found
         [where opts = "exampleRepair 4 2" and post = "[]", OF example_repair_facts(1,2,3,5,6,7)]
  have "UpdateSegmentPieces exampleHelpers exampleAdapters (exampleRepair 4 2) =
          (None, exampleAdapters)"
    by (simp add: exampleAdapters_def updatedPiecesRow_no_match [OF nomatch]
        writePieces_single_no_match [OF example_repair_facts(7) nomatch]
        example_repair_facts(8,9) aliasPiecesScan_def)
  with ne example_repair_facts(2,8) show ?thesis
    by simp
qed

text \<open>
  C10. UpdateSegmentPieces succeeds whenever the stored piece-set of the segment already
  equals the requested new piece-set, even if it does not equal the supplied old
  piece-set; the database is then left untouched. Repeating a successful call with the
  same arguments succeeds again and changes nothing: piece replacement is idempotent.
\<close>

theorem UpdateSegmentPieces_idempotent:
  assumes "UpdateSegmentPiecesVerify h opts = None"
    and "EnsurePiecesToAliases h (OldPieces opts) = Inr oldPieces"
    and "EnsurePiecesToAliases h (NewPieces opts) = Inr newPieces"
    and "newPieces \<noteq> []"
    and "\<forall>(n, d) \<in> set pre. \<not> eligible opts n \<or> segmentRowsOf opts d = []"
    and "eligible opts name"
    and "segmentRowsOf opts db = [s]"
    and "remote_alias_pieces s = Some newPieces"
  shows "fst (UpdateSegmentPieces h (pre @ (name, db) # post) opts) = None \<and>
         (oldPieces \<noteq> newPieces \<longrightarrow>
            snd (UpdateSegmentPieces h (pre @ (name, db) # post) opts) = pre @ (name, db) # post) \<and>
         (\<forall>adapters adapters'.
            UpdateSegmentPieces h adapters opts = (None, adapters') \<longrightarrow>
            UpdateSegmentPieces h adapters' opts = (None, adapters'))"
proof (intro conjI impI allI)
  note found = UpdateSegmentPieces_found [OF assms(1,2,3,5,6,7), of post]
  note match = stored_match [OF assms(8,4), of oldPieces]
  have result: "aliasPiecesScan (remote_alias_pieces (updatedPiecesRow opts oldPieces newPieces s))
            = newPieces"
  proof (cases "piecesMatch s oldPieces")
    case True
    then show ?thesis
      using assms(4)
      by (simp add: updatedPiecesRow_match aliasPiecesValue_def aliasPiecesScan_def)
  next
    case False
    then show ?thesis
      by (simp add: updatedPiecesRow_no_match assms(8) aliasPiecesScan_def)
  qed
  show "fst (UpdateSegmentPieces h (pre @ (name, db) # post) opts) = None"
    using assms(4) by (simp add: found result)
  {
    assume "oldPieces \<noteq> newPieces"
    then have "\<not> piecesMatch s oldPieces"
      by (auto simp: match)
    from writePieces_single_no_match [OF assms(7) this]
    show "snd (UpdateSegmentPieces h (pre @ (name, db) # post) opts) = pre @ (name, db) # post"
      by (simp add: found)
  }
  {
    fix adapters adapters'
    assume "UpdateSegmentPieces h adapters opts = (None, adapters')"
    then show "UpdateSegmentPieces h adapters' opts = (None, adapters')"
      by (rule UpdateSegmentPieces_idem)
  }
qed


theorem UpdateSegmentPieces_idempotent_witness:
  "fst (UpdateSegmentPieces exampleHelpers exampleAdapters (exampleRepair 4 2)) = None \<and>
   snd (UpdateSegmentPieces exampleHelpers exampleAdapters (exampleRepair 4 2)) = exampleAdapters"
proof -
  have ne: "exampleAliases 4 \<noteq> exampleAliases 2"
    by (simp add: exampleAliases_def)
  from UpdateSegmentPieces_idempotent
         [where opts = "exampleRepair 4 2" and post = "[]",
          OF example_repair_facts(1,2,3,9,5,6,7,8)]
  show ?thesis
    using ne by (simp add: exampleAdapters_def)
qed

section \<open>Properties of CommitSegment\<close>

lemma filter_key_unique:
  assumes "distinct (map f xs)" and "\<And>r. P r \<Longrightarrow> f r = k"
  shows "length (filter P xs) \<le> 1"
  using assms(1)
proof (induction xs)
  case Nil
  then show ?case by simp
next
  case (Cons x xs)
  show ?case
  proof (cases "P x")
    case False
    with Cons show ?thesis by simp
  next
    case True
    then have fx: "f x = k" by (rule assms(2))
    have "filter P xs = []"
    proof (rule ccontr)
      assume "filter P xs \<noteq> []"
      then obtain y where y: "y \<in> set xs" "P y"
        by (auto simp: filter_empty_conv)
      then have "f y = k" by (simp add: assms(2))
      with fx y(1) have "f x \<in> f ` set xs" by (metis imageI)
      with Cons.prems show False by simp
    qed
    with True show ?thesis by simp
  qed
qed

lemma pending_parent_unique:
  assumes "objectsKeyUnique db"
  shows "length (filter (isPendingRowOf opts) (objects db)) \<le> 1"
proof (rule filter_key_unique)
  show "distinct (map objectsKey (objects db))"
    using assms by (simp add: objectsKeyUnique_def)
  show "\<And>r. isPendingRowOf opts r \<Longrightarrow>
          objectsKey r = (ProjectID opts, BucketName opts, ObjectKey opts, Version opts)"
    by (simp add: isPendingRowOf_def objectsKey_def)
qed

lemma CommitPendingObjectSegment_missing:
  "filter (isPendingRowOf opts) (objects db) = [] \<Longrightarrow>
   CommitPendingObjectSegment db opts aliasPieces = Inl ErrPendingObjectMissing"
  by (simp add: CommitPendingObjectSegment_def)

lemma CommitPendingObjectSegment_parent:
  assumes "filter (isPendingRowOf opts) (objects db) = [parent]"
  shows "CommitPendingObjectSegment db opts aliasPieces =
           Inr (db\<lparr>segments :=
                  (if \<exists>s \<in> set (segments db). segmentAt (StreamID opts) (csPosition opts) s
                   then map (\<lambda>s. if segmentAt (StreamID opts) (csPosition opts) s
                                  then committedSegmentColumns opts aliasPieces s else s)
                          (segments db)
                   else segments db @
                        [committedSegmentColumns opts aliasPieces
                           (newSegmentRow (StreamID opts) (csPosition opts))])\<rparr>)"
proof -
  have "parent \<in> set (filter (isPendingRowOf opts) (objects db))"
    by (simp add: assms)
  then have "stream_id parent = StreamID opts"
    by (simp add: isPendingRowOf_def)
  then show ?thesis
    by (simp add: CommitPendingObjectSegment_def assms Let_def)
qed

lemma CommitSegment_run:
  assumes "CommitSegmentVerify h opts = None"
    and "EnsurePiecesToAliases h (Pieces opts) = Inr aliasPieces"
  shows "CommitSegment h db opts =
           (case CommitPendingObjectSegment db opts aliasPieces of
              Inl e \<Rightarrow> if e = ErrPendingObjectMissing then Inl e else Inl Error
            | Inr db' \<Rightarrow> Inr db')"
  by (simp add: CommitSegment_def assms)

text \<open>
  C6 (as amended). For a request that passes validation and alias conversion, on a table
  whose primary key is unique, CommitSegment fails with the pending-object-missing error
  kind if and only if no object row with the given (project, bucket, key, version,
  stream) exists in Pending status; otherwise it succeeds, leaves \<open>objects\<close> as it was
  and upserts the segment row keyed by (stream, position) in the same statement. A
  pre-existing row gets every column of the statement's SET list from the request and
  its \<open>inline_data\<close> cleared, while \<open>repaired_at\<close>, which the statement does not name,
  keeps the value of the pre-existing row.
\<close>

theorem CommitSegment_pending_parent:
  assumes "CommitSegmentVerify h opts = None"
    and "EnsurePiecesToAliases h (Pieces opts) = Inr aliasPieces"
    and "objectsKeyUnique db"
  shows "((CommitSegment h db opts = Inl ErrPendingObjectMissing) =
            (\<not> (\<exists>r \<in> set (objects db). isPendingRowOf opts r))) \<and>
         ((\<exists>r \<in> set (objects db). isPendingRowOf opts r) \<longrightarrow>
            CommitSegment h db opts =
              Inr (db\<lparr>segments :=
                     (if \<exists>s \<in> set (segments db). segmentAt (StreamID opts) (csPosition opts) s
                      then map (\<lambda>s. if segmentAt (StreamID opts) (csPosition opts) s
                                     then committedSegmentColumns opts aliasPieces s else s)
                             (segments db)
                      else segments db @
                           [committedSegmentColumns opts aliasPieces
                              (newSegmentRow (StreamID opts) (csPosition opts))])\<rparr>)) \<and>
         (\<forall>s. committedSegmentColumns opts aliasPieces s =
                \<lparr>seg_stream_id = seg_stream_id s, position = position s,
                 seg_expires_at = csExpiresAt opts, root_piece_id = RootPieceID opts,
                 encrypted_key_nonce = EncryptedKeyNonce opts,
                 encrypted_key = EncryptedKey opts, encrypted_size = EncryptedSize opts,
                 plain_offset = PlainOffset opts, plain_size = PlainSize opts,
                 encrypted_etag = csEncryptedETag opts, redundancy = Redundancy opts,
                 remote_alias_pieces = aliasPiecesValue aliasPieces,
                 placement = Placement opts, inline_data = None,
                 repaired_at = repaired_at s\<rparr>)"
proof (intro conjI impI allI)
  note run = CommitSegment_run [OF assms(1,2), of db]
  let ?parents = "filter (isPendingRowOf opts) (objects db)"
  have cases: "?parents = [] \<or> (\<exists>parent. ?parents = [parent])"
    using pending_parent_unique [OF assms(3), of opts]
    by (cases ?parents) (auto simp: Suc_le_eq)
  have none: "?parents = [] \<longleftrightarrow> \<not> (\<exists>r \<in> set (objects db). isPendingRowOf opts r)"
    by (auto simp: filter_empty_conv)
  show "(CommitSegment h db opts = Inl ErrPendingObjectMissing) =
            (\<not> (\<exists>r \<in> set (objects db). isPendingRowOf opts r))"
  proof (cases "?parents = []")
    case True
    then show ?thesis
      using none by (simp add: run CommitPendingObjectSegment_missing)
  next
    case False
    with cases obtain parent where "?parents = [parent]" by blast
    from CommitPendingObjectSegment_parent [OF this] False none show ?thesis
      by (simp add: run)
  qed
  {
    assume "\<exists>r \<in> set (objects db). isPendingRowOf opts r"
    with none cases obtain parent where "?parents = [parent]" by blast
    from CommitPendingObjectSegment_parent [OF this]
    show "CommitSegment h db opts =
              Inr (db\<lparr>segments :=
                     (if \<exists>s \<in> set (segments db). segmentAt (StreamID opts) (csPosition opts) s
                      then map (\<lambda>s. if segmentAt (StreamID opts) (csPosition opts) s
                                     then committedSegmentColumns opts aliasPieces s else s)
                             (segments db)
                      else segments db @
                           [committedSegmentColumns opts aliasPieces
                              (newSegmentRow (StreamID opts) (csPosition opts))])\<rparr>)"
      by (simp add: run)
  }
  show "\<And>s. committedSegmentColumns opts aliasPieces s =
                \<lparr>seg_stream_id = seg_stream_id s, position = position s,
                 seg_expires_at = csExpiresAt opts, root_piece_id = RootPieceID opts,
                 encrypted_key_nonce = EncryptedKeyNonce opts,
                 encrypted_key = EncryptedKey opts, encrypted_size = EncryptedSize opts,
                 plain_offset = PlainOffset opts, plain_size = PlainSize opts,
                 encrypted_etag = csEncryptedETag opts, redundancy = Redundancy opts,
                 remote_alias_pieces = aliasPiecesValue aliasPieces,
                 placement = Placement opts, inline_data = None,
                 repaired_at = repaired_at s\<rparr>"
    by (simp add: committedSegmentColumns_def)
qed


lemma example_commit_segment_facts:
  "CommitSegmentVerify exampleHelpers (exampleCommitSegment 3) = None"
  "EnsurePiecesToAliases exampleHelpers (Pieces (exampleCommitSegment 3)) = Inr (exampleAliases 2)"
  "objectsKeyUnique exampleDBInline"
  "objectsKeyUnique exampleDBCommitted"
  by (simp_all add: CommitSegmentVerify_def exampleHelpers_def exampleCommitSegment_def
      examplePieces_def exampleAliases_def ObjectStream.truncate_def ValidatePlainSize_def
      RedundancyIsZero_def objectsKeyUnique_def exampleDBInline_def exampleDBCommitted_def)

theorem CommitSegment_pending_parent_witness:
  "CommitSegment exampleHelpers exampleDBCommitted (exampleCommitSegment 3) =
     Inl ErrPendingObjectMissing \<and>
   CommitSegment exampleHelpers exampleDBInline (exampleCommitSegment 3) =
     Inr (exampleDBInline
            \<lparr>segments := [committedSegmentColumns (exampleCommitSegment 3) (exampleAliases 2)
                            exampleOldSegment]\<rparr>)"
proof -
  have missing: "\<not> (\<exists>r \<in> set (objects exampleDBCommitted).
                      isPendingRowOf (exampleCommitSegment 3) r)"
    by (simp add: exampleDBCommitted_def exampleObjectRow_def isPendingRowOf_def)
  have parent: "\<exists>r \<in> set (objects exampleDBInline). isPendingRowOf (exampleCommitSegment 3) r"
    by (simp add: exampleDBInline_def exampleObjectRow_def isPendingRowOf_def
        exampleCommitSegment_def)
  have at: "segmentAt (StreamID (exampleCommitSegment 3)) (csPosition (exampleCommitSegment 3))
              exampleOldSegment"
    by (simp add: segmentAt_def exampleCommitSegment_def exampleOldSegment_def
        exampleSegmentRow_def)
  have segs: "segments exampleDBInline = [exampleOldSegment]"
    by (simp add: exampleDBInline_def)
  from CommitSegment_pending_parent [OF example_commit_segment_facts(1,2,4)] missing
  have "CommitSegment exampleHelpers exampleDBCommitted (exampleCommitSegment 3) =
          Inl ErrPendingObjectMissing"
    by blast
  moreover from CommitSegment_pending_parent [OF example_commit_segment_facts(1,2,3)] parent
  have "CommitSegment exampleHelpers exampleDBInline (exampleCommitSegment 3) =
     Inr (exampleDBInline
            \<lparr>segments := [committedSegmentColumns (exampleCommitSegment 3) (exampleAliases 2)
                            exampleOldSegment]\<rparr>)"
    by (simp add: segs at)
  ultimately show ?thesis
    by blast
qed

text \<open>
  The claim as stated fails in "fully overwriting": the pre-existing row carries the
  repair stamp 5; after the commit the row holds the request's columns and no inline
  data, as a freshly inserted row would, but still the repair stamp 5.
\<close>

theorem CommitSegment_overwrite_counterexample:
  "repaired_at exampleOldSegment = Some 5 \<and>
   CommitSegment exampleHelpers exampleDBInline (exampleCommitSegment 3) =
     Inr (exampleDBInline\<lparr>segments := [(exampleSegmentRow 7 0 0 100)\<lparr>repaired_at := Some 5\<rparr>]\<rparr>) \<and>
   committedSegmentColumns (exampleCommitSegment 3) (exampleAliases 2)
     (newSegmentRow 7 \<lparr>Part = 0, Index = 0\<rparr>) = exampleSegmentRow 7 0 0 100 \<and>
   (exampleSegmentRow 7 0 0 100)\<lparr>repaired_at := Some 5\<rparr> \<noteq> exampleSegmentRow 7 0 0 100"
proof -
  have parents: "filter (isPendingRowOf (exampleCommitSegment 3)) (objects exampleDBInline) =
      [exampleObjectRow 1 7 Pending]"
    by (simp add: exampleDBInline_def exampleObjectRow_def isPendingRowOf_def
        exampleCommitSegment_def)
  have at: "segmentAt (StreamID (exampleCommitSegment 3)) (csPosition (exampleCommitSegment 3))
              exampleOldSegment"
    by (simp add: segmentAt_def exampleCommitSegment_def exampleOldSegment_def
        exampleSegmentRow_def)
  have segs: "segments exampleDBInline = [exampleOldSegment]"
    by (simp add: exampleDBInline_def)
  have row: "committedSegmentColumns (exampleCommitSegment 3) (exampleAliases 2) exampleOldSegment
          = (exampleSegmentRow 7 0 0 100)\<lparr>repaired_at := Some 5\<rparr>"
    by (simp add: committedSegmentColumns_def exampleCommitSegment_def exampleOldSegment_def
        exampleSegmentRow_def exampleAliases_def aliasPiecesValue_def)
  have fresh: "committedSegmentColumns (exampleCommitSegment 3) (exampleAliases 2)
     (newSegmentRow 7 \<lparr>Part = 0, Index = 0\<rparr>) = exampleSegmentRow 7 0 0 100"
    by (simp add: committedSegmentColumns_def exampleCommitSegment_def newSegmentRow_def
        exampleSegmentRow_def exampleAliases_def aliasPiecesValue_def)
  have "CommitSegment exampleHelpers exampleDBInline (exampleCommitSegment 3) =
     Inr (exampleDBInline\<lparr>segments := [(exampleSegmentRow 7 0 0 100)\<lparr>repaired_at := Some 5\<rparr>]\<rparr>)"
    by (simp add: CommitSegment_run [OF example_commit_segment_facts(1,2)]
        CommitPendingObjectSegment_parent [OF parents] segs at row)
  moreover have "repaired_at exampleOldSegment = Some 5"
    by (simp add: exampleOldSegment_def)
  moreover have "(exampleSegmentRow 7 0 0 100)\<lparr>repaired_at := Some 5\<rparr> \<noteq> exampleSegmentRow 7 0 0 100"
    by (simp add: exampleSegmentRow_def)
  ultimately show ?thesis
    using fresh by blast
qed

section \<open>The piece-count preconditions\<close>

lemma tryAdapters_result_row:
  assumes "tryAdapters opts old new ads = (Inr ps, ads')" and "ps \<noteq> []"
  shows "\<exists>(n, d) \<in> set ads'. \<exists>s \<in> set (segmentRowsOf opts d).
           aliasPiecesScan (remote_alias_pieces s) = ps"
  using assms
proof (induction ads arbitrary: ads')
  case Nil
  then show ?case by simp
next
  case (Cons a ads)
  obtain name db where a: "a = (name, db)" by (cases a)
  obtain r0 rest' where rec: "tryAdapters opts old new ads = (r0, rest')"
    by (cases "tryAdapters opts old new ads")
  show ?case
  proof (cases "eligible opts name \<and> segmentRowsOf opts db \<noteq> []")
    case True
    then obtain s others where rows: "segmentRowsOf opts db = s # others"
      by (cases "segmentRowsOf opts db") auto
    from True Cons.prems(1) have
      ps: "ps = aliasPiecesScan (remote_alias_pieces (updatedPiecesRow opts old new s))"
      and ads': "ads' = (name, writePieces opts old new db) # ads"
      by (simp_all add: a eligible_def adapterUpdateSegmentPieces_found [OF rows])
    have "updatedPiecesRow opts old new s \<in> set (segmentRowsOf opts (writePieces opts old new db))"
      by (simp add: segmentRowsOf_writePieces rows)
    with ps show ?thesis
      unfolding ads' by auto
  next
    case False
    with Cons.prems(1) rec have r0: "r0 = Inr ps" and ads': "ads' = (name, db) # rest'"
      by (auto simp: a eligible_def adapterUpdateSegmentPieces_missing split: if_splits)
    from Cons.IH [OF rec [unfolded r0] Cons.prems(2)] show ?thesis
      unfolding ads' by auto
  qed
qed

text \<open>
  C9. For every remote segment write the piece-count lower bounds are preconditions:
  CommitSegment fails with invalid-request whenever the supplied piece count is less
  than Redundancy.OptimalShares, and UpdateSegmentPieces fails with invalid-request
  (and writes nothing) whenever the new piece count is less than
  NewRedundancy.RepairShares. So the segment row written by a successful CommitSegment
  holds at least OptimalShares pieces, and after a successful UpdateSegmentPieces the
  segment holds at least NewRedundancy.RepairShares pieces. The validators and the alias
  cache are parameters; they behave as the spec says (validation failures are
  invalid-request, one alias per piece).
\<close>

theorem piece_count_preconditions:
  assumes "validatorsInvalidRequest h" and "aliasesKeepLength h"
  shows "(int (length (Pieces c)) < OptimalShares (Redundancy c) \<longrightarrow>
            CommitSegment h db c = Inl ErrInvalidRequest) \<and>
         (int (length (NewPieces u)) < RepairShares (NewRedundancy u) \<longrightarrow>
            UpdateSegmentPieces h adapters u = (Some ErrInvalidRequest, adapters)) \<and>
         (\<forall>db'. CommitSegment h db c = Inr db' \<longrightarrow>
            (\<exists>s \<in> set (segments db').
               segmentAt (StreamID c) (csPosition c) s \<and> redundancy s = Redundancy c \<and>
               OptimalShares (redundancy s)
                 \<le> int (length (aliasPiecesScan (remote_alias_pieces s))))) \<and>
         (\<forall>adapters'. UpdateSegmentPieces h adapters u = (None, adapters') \<longrightarrow>
            (\<exists>(n, d) \<in> set adapters'. \<exists>s \<in> set (segmentRowsOf u d).
               RepairShares (NewRedundancy u)
                 \<le> int (length (aliasPiecesScan (remote_alias_pieces s)))))"
proof (intro conjI impI allI)
  from assms(1) have os: "\<And>x. ObjectStreamVerify h x = None \<or> ObjectStreamVerify h x = Some ErrInvalidRequest"
    and pv: "\<And>x. PiecesVerify h x = None \<or> PiecesVerify h x = Some ErrInvalidRequest"
    by (simp_all add: validatorsInvalidRequest_def)
  {
    assume few: "int (length (Pieces c)) < OptimalShares (Redundancy c)"
    have "CommitSegmentVerify h c = Some ErrInvalidRequest"
      using os [of "ObjectStream.truncate c"] pv [of "Pieces c"] few
      by (auto simp: CommitSegmentVerify_def)
    then show "CommitSegment h db c = Inl ErrInvalidRequest"
      by (simp add: CommitSegment_def)
  }
  {
    assume few: "int (length (NewPieces u)) < RepairShares (NewRedundancy u)"
    have "UpdateSegmentPiecesVerify h u = Some ErrInvalidRequest"
      using pv [of "OldPieces u"] few
      by (auto simp: UpdateSegmentPiecesVerify_def)
    then show "UpdateSegmentPieces h adapters u = (Some ErrInvalidRequest, adapters)"
      by (simp add: UpdateSegmentPieces_def)
  }
  {
    fix db' assume ok: "CommitSegment h db c = Inr db'"
    then have v: "CommitSegmentVerify h c = None"
      by (auto simp: CommitSegment_def split: option.splits)
    with ok obtain aliasPieces where al: "EnsurePiecesToAliases h (Pieces c) = Inr aliasPieces"
      by (auto simp: CommitSegment_def split: sum.splits)
    from assms(2) al have len: "length aliasPieces = length (Pieces c)"
      by (simp add: aliasesKeepLength_def)
    from v have enough: "OptimalShares (Redundancy c) \<le> int (length (Pieces c))"
      by (auto simp: CommitSegmentVerify_def split: option.splits if_splits)
    from ok have cp: "CommitPendingObjectSegment db c aliasPieces = Inr db'"
      by (auto simp: CommitSegment_run [OF v al] split: sum.splits if_splits)
    then obtain parent where parent: "filter (isPendingRowOf c) (objects db) = [parent]"
      by (auto simp: CommitPendingObjectSegment_def split: list.splits)
    let ?hit = "segmentAt (StreamID c) (csPosition c)"
    let ?w = "committedSegmentColumns c aliasPieces"
    have w_at: "\<And>s. ?hit (?w s) = ?hit s"
      by (simp add: committedSegmentColumns_def segmentAt_def)
    have w_ok: "\<And>s. redundancy (?w s) = Redundancy c \<and>
        aliasPiecesScan (remote_alias_pieces (?w s)) = aliasPieces"
      by (simp add: committedSegmentColumns_def aliasPiecesScan_def aliasPiecesValue_def)
    have "\<exists>s. ?hit s \<and> ?w s \<in> set (segments db')"
    proof (cases "\<exists>s \<in> set (segments db). ?hit s")
      case True
      then obtain s where s: "s \<in> set (segments db)" "?hit s" by blast
      from cp have "segments db' = map (\<lambda>s. if ?hit s then ?w s else s) (segments db)"
        using True by (auto simp: CommitPendingObjectSegment_parent [OF parent])
      with s have "?w s \<in> set (segments db')"
        by (auto simp: image_iff intro!: bexI [of _ s])
      with s(2) show ?thesis by blast
    next
      case False
      from cp have "segments db' = segments db @ [?w (newSegmentRow (StreamID c) (csPosition c))]"
        using False by (auto simp: CommitPendingObjectSegment_parent [OF parent])
      moreover have "?hit (newSegmentRow (StreamID c) (csPosition c))"
        by (simp add: segmentAt_def newSegmentRow_def)
      ultimately show ?thesis by auto
    qed
    then obtain s where "?hit s" "?w s \<in> set (segments db')" by blast
    with w_at [of s] w_ok [of s] enough len
    show "\<exists>s \<in> set (segments db').
               segmentAt (StreamID c) (csPosition c) s \<and> redundancy s = Redundancy c \<and>
               OptimalShares (redundancy s)
                 \<le> int (length (aliasPiecesScan (remote_alias_pieces s)))"
      by (intro bexI [of _ "?w s"]) simp_all
  }
  {
    fix adapters' assume ok: "UpdateSegmentPieces h adapters u = (None, adapters')"
    then have v: "UpdateSegmentPiecesVerify h u = None"
      by (auto simp: UpdateSegmentPieces_def split: option.splits)
    with ok obtain oldPieces where old: "EnsurePiecesToAliases h (OldPieces u) = Inr oldPieces"
      by (auto simp: UpdateSegmentPieces_def split: sum.splits)
    with ok v obtain newPieces where new: "EnsurePiecesToAliases h (NewPieces u) = Inr newPieces"
      by (auto simp: UpdateSegmentPieces_def split: sum.splits)
    from assms(2) new have len: "length newPieces = length (NewPieces u)"
      by (simp add: aliasesKeepLength_def)
    from v have enough: "RepairShares (NewRedundancy u) \<le> int (length (NewPieces u))"
      by (auto simp: UpdateSegmentPiecesVerify_def split: option.splits if_splits)
    from ok have t: "tryAdapters u oldPieces newPieces adapters = (Inr newPieces, adapters')"
      and ne: "newPieces \<noteq> []"
      by (auto simp: UpdateSegmentPieces_def v old new EqualAliasPieces_def
          split: sum.splits if_splits prod.splits)
    from tryAdapters_result_row [OF t ne] obtain n d s where
      found: "(n, d) \<in> set adapters'" "s \<in> set (segmentRowsOf u d)"
        "aliasPiecesScan (remote_alias_pieces s) = newPieces"
      by blast
    from found(3) enough len
    have "RepairShares (NewRedundancy u)
            \<le> int (length (aliasPiecesScan (remote_alias_pieces s)))"
      by simp
    with found(1,2)
    show "\<exists>(n, d) \<in> set adapters'. \<exists>s \<in> set (segmentRowsOf u d).
               RepairShares (NewRedundancy u)
                 \<le> int (length (aliasPiecesScan (remote_alias_pieces s)))"
      by blast
  }
qed

lemma example_helpers_behave:
  "validatorsInvalidRequest exampleHelpers" "aliasesKeepLength exampleHelpers"
  by (auto simp: validatorsInvalidRequest_def aliasesKeepLength_def exampleHelpers_def)

theorem piece_count_preconditions_witness:
  "int (length (Pieces (exampleCommitSegment 2)))
     < OptimalShares (Redundancy (exampleCommitSegment 2)) \<and>
   CommitSegment exampleHelpers exampleDBInline (exampleCommitSegment 2) = Inl ErrInvalidRequest \<and>
   int (length (NewPieces ((exampleRepair 2 4)\<lparr>NewPieces := [\<lparr>Number = 0, StorageNode = 1\<rparr>]\<rparr>)))
     < RepairShares (NewRedundancy ((exampleRepair 2 4)\<lparr>NewPieces := [\<lparr>Number = 0, StorageNode = 1\<rparr>]\<rparr>)) \<and>
   UpdateSegmentPieces exampleHelpers exampleAdapters
     ((exampleRepair 2 4)\<lparr>NewPieces := [\<lparr>Number = 0, StorageNode = 1\<rparr>]\<rparr>) =
     (Some ErrInvalidRequest, exampleAdapters)"
proof -
  have few: "int (length (Pieces (exampleCommitSegment 2)))
     < OptimalShares (Redundancy (exampleCommitSegment 2))"
    by (simp add: exampleCommitSegment_def examplePieces_def)
  have few': "int (length (NewPieces ((exampleRepair 2 4)\<lparr>NewPieces := [\<lparr>Number = 0, StorageNode = 1\<rparr>]\<rparr>)))
     < RepairShares (NewRedundancy ((exampleRepair 2 4)\<lparr>NewPieces := [\<lparr>Number = 0, StorageNode = 1\<rparr>]\<rparr>))"
    by (simp add: exampleRepair_def)
  from piece_count_preconditions [OF example_helpers_behave,
      of "exampleCommitSegment 2" exampleDBInline
         "(exampleRepair 2 4)\<lparr>NewPieces := [\<lparr>Number = 0, StorageNode = 1\<rparr>]\<rparr>" exampleAdapters]
    few few'
  show ?thesis
    by blast
qed

section \<open>ListObjects: the batches and the result\<close>

subsection \<open>One row and one batch\<close>

lemma scan_self: "(scanListObjectsEntry opts r)\<lparr>IsLatest := False\<rparr> = scanListObjectsEntry opts r"
  unfolding scanListObjectsEntry_def prefixEntry_def Let_def
  by (simp split: option.split)

lemma scan_cases:
  "(IsPrefix (scanListObjectsEntry opts l) \<and> \<not> Recursive opts \<and>
      entStatus (scanListObjectsEntry opts l) = Prefix \<and>
      (\<exists>i. IndexByte (selectedKey opts l) Delimiter = Some i \<and>
           entObjectKey (scanListObjectsEntry opts l) = take (Suc i) (selectedKey opts l))) \<or>
   (\<not> IsPrefix (scanListObjectsEntry opts l) \<and>
      entObjectKey (scanListObjectsEntry opts l) = selectedKey opts l \<and>
      entVersion (scanListObjectsEntry opts l) = version l \<and>
      entStatus (scanListObjectsEntry opts l) = status l)"
  unfolding scanListObjectsEntry_def prefixEntry_def Let_def
  by (auto split: option.split)

lemma markLatest_simps:
  "entObjectKey (markLatest opts st e) = entObjectKey e"
  "IsPrefix (markLatest opts st e) = IsPrefix e"
  "entVersion (markLatest opts st e) = entVersion e"
  "entStatus (markLatest opts st e) = entStatus e"
  "(markLatest opts st e)\<lparr>IsLatest := False\<rparr> = e\<lparr>IsLatest := False\<rparr>"
  unfolding markLatest_def by simp_all

lemma setLastEntry_simps:
  "leSet (setLastEntry st e) = True"
  "leObjectKey (setLastEntry st e) = entObjectKey e"
  "leIsPrefix (setLastEntry st e) = IsPrefix e"
  "leVersion (setLastEntry st e) = entVersion e"
  "scannedCount (setLastEntry st e) = scannedCount st"
  "stObjects (setLastEntry st e) = stObjects st"
  unfolding setLastEntry_def by simp_all

lemma int64_id: "- (2 ^ 63) \<le> x \<Longrightarrow> x < 2 ^ 63 \<Longrightarrow> int64 x = x"
  unfolding int64_def by (simp add: mod_pos_pos_trivial)

lemma processRow_last:
  assumes "processRow opts row st = Continue st' \<or> processRow opts row st = Break st'"
  shows "leSet st' \<and> leObjectKey st' = entObjectKey (scanListObjectsEntry opts row) \<and>
         leIsPrefix st' = IsPrefix (scanListObjectsEntry opts row) \<and>
         leVersion st' = entVersion (scanListObjectsEntry opts row)"
  using assms unfolding processRow_def Let_def
  by (auto split: if_splits simp: markLatest_simps setLastEntry_simps)

lemma processRow_objects:
  assumes "processRow opts row st = Continue st' \<or> processRow opts row st = Break st'"
  shows "stObjects st' = stObjects st \<or>
         (\<exists>e. stObjects st' = stObjects st @ [e] \<and> emitted opts row st e \<and>
              int (length (stObjects st)) + 1 < int64 (Limit opts + 1))"
  using assms unfolding processRow_def Let_def emitted_def entryOfRow_def
  by (auto split: if_splits simp: markLatest_simps setLastEntry_simps scan_self)

lemma processRow_return:
  assumes "processRow opts row st = Return r objs"
  shows "(\<exists>e. objs = stObjects st @ [e] \<and> emitted opts row st e) \<and>
         int64 (Limit opts + 1) \<le> int (length objs) \<and>
         (if Limit opts < 0 \<or> int (length objs) < Limit opts then r = Inl Panic
          else r = Inr \<lparr>Objects = take (nat (Limit opts)) objs, More = True\<rparr>)"
  using assms unfolding processRow_def Let_def emitted_def entryOfRow_def
  by (auto split: if_splits simp: markLatest_simps setLastEntry_simps scan_self)

lemma processRow_found:
  assumes "processRow opts row st = Continue st' \<or> processRow opts row st = Break st'"
  shows "foundDeleteMarker st' \<longleftrightarrow> foundDeleteMarker st \<or> hiddenAt opts row st"
  using assms unfolding processRow_def Let_def hiddenAt_def
  by (auto split: if_splits simp: markLatest_simps setLastEntry_def)

lemma processRow_break:
  assumes "processRow opts row st = Break st'"
  shows "\<not> hiddenAt opts row st"
  using assms unfolding processRow_def Let_def hiddenAt_def
  by (auto split: if_splits)

lemma read_entries_bound:
  assumes "int (length (stObjects st)) \<le> Limit opts"
    and "0 \<le> Limit opts"
    and "int64 (Limit opts + 1) = Limit opts + 1"
  shows "case read_entries opts rows st of
           Inr st1 \<Rightarrow> int (length (stObjects st1)) \<le> Limit opts
         | Inl (r, objs) \<Rightarrow>
             int (length objs) = Limit opts + 1 \<and>
             r = Inr \<lparr>Objects = take (nat (Limit opts)) objs, More = True\<rparr>"
  using assms(1)
proof (induction rows arbitrary: st)
  case Nil
  then show ?case by simp
next
  case (Cons row rows)
  show ?case
  proof (cases "processRow opts row st")
    case (Return r objs)
    from processRow_return [OF Return] Cons.prems assms(2,3)
    show ?thesis using Return by (auto split: if_splits)
  next
    case (Break st')
    from processRow_objects [of opts row st st'] Break Cons.prems assms(3)
    show ?thesis by auto
  next
    case (Continue st')
    from processRow_objects [of opts row st st'] Continue Cons.prems assms(3)
    have b: "int (length (stObjects st')) \<le> Limit opts"
      by auto
    from Cons.IH [OF b] show ?thesis using Continue by simp
  qed
qed

lemma read_entries_found:
  assumes "read_entries opts rows st = Inr st1"
  shows "foundDeleteMarker st1 \<longleftrightarrow> foundDeleteMarker st \<or> hidesDeleteMarker opts rows st"
  using assms
proof (induction rows arbitrary: st)
  case Nil
  then show ?case by simp
next
  case (Cons row rows)
  show ?case
  proof (cases "processRow opts row st")
    case (Return r objs)
    then show ?thesis using Cons.prems by simp
  next
    case (Break st')
    with Cons.prems have "st1 = st'" by simp
    with processRow_found [of opts row st st'] processRow_break [OF Break] Break
    show ?thesis by simp
  next
    case (Continue st')
    with Cons.prems have r: "read_entries opts rows st' = Inr st1" by simp
    from Cons.IH [OF r] processRow_found [of opts row st st'] Continue
    show ?thesis by auto
  qed
qed

lemma hidesDeleteMarker_row:
  assumes "hidesDeleteMarker opts rows st"
  shows "\<not> AllVersions opts \<and> (\<exists>row \<in> set rows. IsDeleteMarker (status row))"
  using assms
proof (induction rows arbitrary: st)
  case Nil
  then show ?case by simp
next
  case (Cons row rows)
  have dm: "\<not> AllVersions opts \<and> IsDeleteMarker (status row)" if "hiddenAt opts row st"
    using that scan_cases [of opts row] unfolding hiddenAt_def
    by (auto simp: IsDeleteMarker_def)
  from Cons.prems consider "hiddenAt opts row st"
    | st' where "processRow opts row st = Continue st'" "hidesDeleteMarker opts rows st'"
    by (auto split: rowOutcome.splits)
  then show ?case
  proof cases
    case 1
    with dm show ?thesis by auto
  next
    case 2
    with Cons.IH [of st'] show ?thesis by auto
  qed
qed

lemma read_entries_last:
  assumes "read_entries opts rows st = Inr st1"
  shows "st1 = st \<or>
         (\<exists>l \<in> set rows.
             leSet st1 \<and> leObjectKey st1 = entObjectKey (scanListObjectsEntry opts l) \<and>
             leIsPrefix st1 = IsPrefix (scanListObjectsEntry opts l) \<and>
             leVersion st1 = entVersion (scanListObjectsEntry opts l))"
  using assms
proof (induction rows arbitrary: st)
  case Nil
  then show ?case by simp
next
  case (Cons row rows)
  show ?case
  proof (cases "processRow opts row st")
    case (Return r objs)
    then show ?thesis using Cons.prems by simp
  next
    case (Break st')
    with Cons.prems have "st1 = st'" by simp
    with processRow_last [of opts row st st'] Break show ?thesis by auto
  next
    case (Continue st')
    with Cons.prems have r: "read_entries opts rows st' = Inr st1" by simp
    from processRow_last [of opts row st st'] Continue
    have l: "leSet st' \<and> leObjectKey st' = entObjectKey (scanListObjectsEntry opts row) \<and>
         leIsPrefix st' = IsPrefix (scanListObjectsEntry opts row) \<and>
         leVersion st' = entVersion (scanListObjectsEntry opts row)" by simp
    from Cons.IH [OF r] l show ?thesis by auto
  qed
qed

subsection \<open>Facts about the order of keys\<close>

lemma string_le_append: "(xs :: string) \<le> xs @ ys"
  by (induction xs) (auto simp: less_eq_list_code)

lemma string_less_append_mid:
  "a < b \<Longrightarrow> (xs :: string) @ a # ys < xs @ b # zs"
  by (induction xs) (auto simp: less_list_code)

lemma HasPrefix_le: "HasPrefix k p \<Longrightarrow> p \<le> k"
proof -
  assume "HasPrefix k p"
  then have "k = p @ drop (length p) k"
    unfolding HasPrefix_def by (metis append_take_drop_id)
  then show ?thesis using string_le_append [of p "drop (length p) k"] by simp
qed

lemma IndexByte_Some:
  "IndexByte s c = Some i \<Longrightarrow> i < length s \<and> s ! i = c"
  by (induction s arbitrary: i) (auto split: if_splits)

lemma IndexByte_split:
  assumes "IndexByte s c = Some i"
  shows "s = take i s @ c # drop (Suc i) s"
  using IndexByte_Some [OF assms] by (metis id_take_nth_drop)

lemma butlast_take_Suc: "i < length s \<Longrightarrow> butlast (take (Suc i) s) = take i s"
  by (simp add: butlast_take)

lemma slash_less_zero: "CHR ''/'' < CHR ''0''"
  by (simp add: less_char_def)



lemma afterCursor_key: "afterCursor opts c r \<Longrightarrow> curKey c \<le> object_key r"
  unfolding afterCursor_def by (auto split: if_splits)

lemma afterCursor_greater: "curKey c < object_key r \<Longrightarrow> afterCursor opts c r"
  unfolding afterCursor_def by simp

lemma candidate_key:
  assumes "prefixLimitSound h (loPrefix opts)" and "loPrefix opts \<le> curKey c"
    and "candidate h now opts c r"
  shows "loPrefix opts @ selectedKey opts r = object_key r"
proof (cases "loPrefix opts = []")
  case True
  then show ?thesis by (simp add: selectedKey_def)
next
  case False
  from assms(3) have a: "curKey c \<le> object_key r" and b: "object_key r < PrefixLimit h (loPrefix opts)"
    using False unfolding candidate_def beforeStopKey_def by (auto dest: afterCursor_key)
  from assms(2) a have "loPrefix opts \<le> object_key r" by (rule order_trans)
  with b assms(1) False have "HasPrefix (object_key r) (loPrefix opts)"
    unfolding prefixLimitSound_def by blast
  then have "take (length (loPrefix opts)) (object_key r) = loPrefix opts"
    unfolding HasPrefix_def .
  then have "loPrefix opts @ drop (length (loPrefix opts)) (object_key r) = object_key r"
    by (metis append_take_drop_id)
  then show ?thesis using False by (simp add: selectedKey_def)
qed

lemma nextCursor_progress:
  assumes wf: "versionsInRange h db"
    and snd: "prefixLimitSound h (loPrefix opts)"
    and inv: "loPrefix opts \<le> curKey c"
    and mem: "l \<in> set (objects db)"
    and cand: "candidate h now opts c l"
    and k: "leObjectKey st1 = entObjectKey (scanListObjectsEntry opts l)"
    and p: "leIsPrefix st1 = IsPrefix (scanListObjectsEntry opts l)"
    and v: "leVersion st1 = entVersion (scanListObjectsEntry opts l)"
    and nc: "nextCursor h opts st1 = Inr c'"
  shows "loPrefix opts \<le> curKey c' \<and> \<not> candidate h now opts c' l \<and>
         (\<forall>r \<in> set (objects db). candidate h now opts c' r \<longrightarrow> candidate h now opts c r)"
proof -
  have key: "loPrefix opts @ selectedKey opts l = object_key l"
    by (rule candidate_key [OF snd inv cand])
  from cand have ckl: "curKey c \<le> object_key l"
    unfolding candidate_def by (auto dest: afterCursor_key)
  from wf mem have vl: "0 \<le> version l" "version l \<le> MaxVersion h"
    unfolding versionsInRange_def list_all_iff by auto
  from scan_cases [of opts l] show ?thesis
  proof
    assume pre: "IsPrefix (scanListObjectsEntry opts l) \<and> \<not> Recursive opts \<and>
      entStatus (scanListObjectsEntry opts l) = Prefix \<and>
      (\<exists>i. IndexByte (selectedKey opts l) Delimiter = Some i \<and>
           entObjectKey (scanListObjectsEntry opts l) = take (Suc i) (selectedKey opts l))"
    then obtain i where i: "IndexByte (selectedKey opts l) Delimiter = Some i"
      and ek: "entObjectKey (scanListObjectsEntry opts l) = take (Suc i) (selectedKey opts l)"
      by blast
    from IndexByte_Some [OF i] have il: "i < length (selectedKey opts l)" by simp
    have ne: "leObjectKey st1 \<noteq> []" using k ek il by auto
    have bl: "butlast (leObjectKey st1) = take i (selectedKey opts l)"
      using k ek il by (simp add: butlast_take_Suc)
    from nc pre p ne bl have c': "curKey c' = loPrefix opts @ take i (selectedKey opts l) @ DelimiterNext"
      unfolding nextCursor_def by (auto split: if_splits)
    have "object_key l = (loPrefix opts @ take i (selectedKey opts l)) @ Delimiter # drop (Suc i) (selectedKey opts l)"
      using key IndexByte_split [OF i] by (metis append.assoc)
    moreover have "curKey c' = (loPrefix opts @ take i (selectedKey opts l)) @ CHR ''0'' # []"
      using c' by (simp add: DelimiterNext_def)
    moreover have "(loPrefix opts @ take i (selectedKey opts l)) @ Delimiter # drop (Suc i) (selectedKey opts l)
        < (loPrefix opts @ take i (selectedKey opts l)) @ CHR ''0'' # []"
      unfolding Delimiter_def by (rule string_less_append_mid [OF slash_less_zero])
    ultimately have less: "object_key l < curKey c'"
      by (simp only:)
    have 1: "loPrefix opts \<le> curKey c'" unfolding c' by (rule string_le_append)
    have 2: "\<not> candidate h now opts c' l"
      using less unfolding candidate_def by (auto dest: afterCursor_key)
    have 3: "candidate h now opts c r" if "candidate h now opts c' r" for r
    proof -
      from that have "curKey c' \<le> object_key r"
        unfolding candidate_def by (auto dest: afterCursor_key)
      with less ckl have "curKey c < object_key r" by simp
      then show ?thesis using that unfolding candidate_def
        by (auto intro: afterCursor_greater)
    qed
    from 1 2 3 show ?thesis by blast
  next
    assume np: "\<not> IsPrefix (scanListObjectsEntry opts l) \<and>
      entObjectKey (scanListObjectsEntry opts l) = selectedKey opts l \<and>
      entVersion (scanListObjectsEntry opts l) = version l \<and>
      entStatus (scanListObjectsEntry opts l) = status l"
    with nc p k v key have ck: "curKey c' = object_key l"
      and cv: "curVersion c' = (if AllVersions opts then version l else lastVersion h opts)"
      unfolding nextCursor_def by (auto split: if_splits)
    have 1: "loPrefix opts \<le> curKey c'"
      unfolding ck using key string_le_append [of "loPrefix opts" "selectedKey opts l"] by simp
    have 2: "\<not> candidate h now opts c' l"
      using vl unfolding candidate_def afterCursor_def ck cv lastVersion_def
      by (auto split: if_splits)
    have 3: "candidate h now opts c r" if c: "candidate h now opts c' r" and m: "r \<in> set (objects db)" for r
    proof -
      from wf m have vr: "0 \<le> version r" "version r \<le> MaxVersion h"
        unfolding versionsInRange_def list_all_iff by auto
      from cand have al: "afterCursor opts c l" unfolding candidate_def by simp
      from c have ar: "afterCursor opts c' r" unfolding candidate_def by simp
      have "afterCursor opts c r"
        using al ar vr vl unfolding afterCursor_def ck cv lastVersion_def
        by (auto split: if_splits)
      then show ?thesis using c unfolding candidate_def by simp
    qed
    from 1 2 3 show ?thesis by blast
  qed
qed

lemma filter_shrinks:
  assumes "x \<in> set xs" and "P x" and "\<not> Q x" and "\<forall>y \<in> set xs. Q y \<longrightarrow> P y"
  shows "length (filter Q xs) < length (filter P xs)"
proof -
  have "filter Q xs = filter Q (filter P xs)"
    using assms(4) by (auto intro: filter_cong)
  moreover have "length (filter Q (filter P xs)) < length (filter P xs)"
    using assms(1,2,3) by (intro length_filter_less [of x]) auto
  ultimately show ?thesis by simp
qed



lemma queryObjects_subset:
  "r \<in> set (queryObjects h now db opts c b) \<Longrightarrow>
   r \<in> set (objects db) \<and> candidate h now opts c r"
  unfolding queryObjects_def by (auto dest: in_set_takeD)

text \<open>One turn of the loop over batches, by the way it ends.\<close>

lemma listLoop_cases [consumes 1, case_names TooMany SqlError Full Done Panics Requery]:
  assumes run: "listLoop (Suc fuel) h now db opts b rep rl c st bs = Some run"
  obtains
    (TooMany) "\<not> rep < rl"
      "run = \<lparr>runResult = Inl TooManyRequeries, runAccumulated = stObjects st,
              runRepeat = rep, runRequeryLimit = rl, runBatches = bs\<rparr>"
  | (SqlError) "rep < rl" "b < 0"
      "run = \<lparr>runResult = Inl Error, runAccumulated = stObjects st,
              runRepeat = rep, runRequeryLimit = rl, runBatches = bs\<rparr>"
  | (Full) r objs where "rep < rl"
      "read_entries opts (queryObjects h now db opts c b)
         (st\<lparr>foundDeleteMarker := False, scannedCount := 0, skipAhead := False\<rparr>) = Inl (r, objs)"
      "run = \<lparr>runResult = r, runAccumulated = objs,
              runRepeat = rep, runRequeryLimit = rl, runBatches = bs\<rparr>"
  | (Done) st1 where "rep < rl"
      "read_entries opts (queryObjects h now db opts c b)
         (st\<lparr>foundDeleteMarker := False, scannedCount := 0, skipAhead := False\<rparr>) = Inr st1"
      "run = \<lparr>runResult = Inr \<lparr>Objects = stObjects st1, More = False\<rparr>,
              runAccumulated = stObjects st1, runRepeat = rep,
              runRequeryLimit = (if foundDeleteMarker st1 then int64 (rl + 1) else rl),
              runBatches = bs @ [(queryObjects h now db opts c b,
                 st\<lparr>foundDeleteMarker := False, scannedCount := 0, skipAhead := False\<rparr>)]\<rparr>"
  | (Panics) st1 e where "rep < rl"
      "read_entries opts (queryObjects h now db opts c b)
         (st\<lparr>foundDeleteMarker := False, scannedCount := 0, skipAhead := False\<rparr>) = Inr st1"
      "nextCursor h opts st1 = Inl e"
      "run = \<lparr>runResult = Inl e, runAccumulated = stObjects st1, runRepeat = rep,
              runRequeryLimit = (if foundDeleteMarker st1 then int64 (rl + 1) else rl),
              runBatches = bs @ [(queryObjects h now db opts c b,
                 st\<lparr>foundDeleteMarker := False, scannedCount := 0, skipAhead := False\<rparr>)]\<rparr>"
  | (Requery) st1 c1 where "rep < rl"
      "read_entries opts (queryObjects h now db opts c b)
         (st\<lparr>foundDeleteMarker := False, scannedCount := 0, skipAhead := False\<rparr>) = Inr st1"
      "scannedCount st1 \<noteq> 0"
      "nextCursor h opts st1 = Inr c1"
      "listLoop fuel h now db opts b (int64 (rep + 1))
         (if foundDeleteMarker st1 then int64 (rl + 1) else rl) c1 st1
         (bs @ [(queryObjects h now db opts c b,
                 st\<lparr>foundDeleteMarker := False, scannedCount := 0, skipAhead := False\<rparr>)])
       = Some run"
proof -
  define st0 where "st0 = st\<lparr>foundDeleteMarker := False, scannedCount := 0, skipAhead := False\<rparr>"
  define rows where "rows = queryObjects h now db opts c b"
  show thesis
  proof (cases "\<not> rep < rl \<or> b < 0")
    case True
    with run TooMany SqlError show thesis by (auto split: if_splits)
  next
    case False
    then have g: "rep < rl" "\<not> b < 0" by auto
    show thesis
    proof (cases "read_entries opts rows st0")
      case (Inl ro)
      obtain r objs where ro: "ro = (r, objs)" by (cases ro)
      with run g Inl have "run = \<lparr>runResult = r, runAccumulated = objs,
              runRepeat = rep, runRequeryLimit = rl, runBatches = bs\<rparr>"
        by (simp add: st0_def rows_def Let_def)
      with Full [of r objs] g Inl ro show thesis by (simp add: st0_def rows_def)
    next
      case (Inr st1)
      show thesis
      proof (cases "scannedCount st1 = 0 \<or> (\<not> skipAhead st1 \<and> scannedCount st1 < b)")
        case True
        with run g Inr have "run = \<lparr>runResult = Inr \<lparr>Objects = stObjects st1, More = False\<rparr>,
              runAccumulated = stObjects st1, runRepeat = rep,
              runRequeryLimit = (if foundDeleteMarker st1 then int64 (rl + 1) else rl),
              runBatches = bs @ [(rows, st0)]\<rparr>"
          by (auto simp: st0_def rows_def Let_def split: if_splits)
        with Done [of st1] g Inr show thesis by (simp add: st0_def rows_def)
      next
        case False
        show thesis
        proof (cases "nextCursor h opts st1")
          case (Inl e)
          with run g Inr False have "run = \<lparr>runResult = Inl e, runAccumulated = stObjects st1,
              runRepeat = rep,
              runRequeryLimit = (if foundDeleteMarker st1 then int64 (rl + 1) else rl),
              runBatches = bs @ [(rows, st0)]\<rparr>"
            by (auto simp: st0_def rows_def Let_def split: if_splits)
          with Panics [of st1 e] g Inr Inl show thesis by (simp add: st0_def rows_def)
        next
          case c1: (Inr c1)
          with run g Inr False have "listLoop fuel h now db opts b (int64 (rep + 1))
              (if foundDeleteMarker st1 then int64 (rl + 1) else rl) c1 st1
              (bs @ [(rows, st0)]) = Some run"
            by (auto simp: st0_def rows_def Let_def split: if_splits)
          with Requery [of st1 c1] g Inr False c1 show thesis
            by (simp add: st0_def rows_def)
        qed
      qed
    qed
  qed
qed

text \<open>A batch that is followed by a requery moves the cursor past a row of the table.\<close>

lemma requery_progress:
  assumes wf: "versionsInRange h db"
    and snd: "prefixLimitSound h (loPrefix opts)"
    and pre: "loPrefix opts \<le> curKey c"
    and re: "read_entries opts (queryObjects h now db opts c b) st0 = Inr st1"
    and ne: "st1 \<noteq> st0"
    and nc: "nextCursor h opts st1 = Inr c1"
  shows "loPrefix opts \<le> curKey c1 \<and>
         length (filter (candidate h now opts c1) (objects db))
           < length (filter (candidate h now opts c) (objects db))"
proof -
  from read_entries_last [OF re] ne obtain l
    where l: "l \<in> set (queryObjects h now db opts c b)"
      and k: "leObjectKey st1 = entObjectKey (scanListObjectsEntry opts l)"
      and p: "leIsPrefix st1 = IsPrefix (scanListObjectsEntry opts l)"
      and v: "leVersion st1 = entVersion (scanListObjectsEntry opts l)"
    by blast
  from queryObjects_subset [OF l] have mem: "l \<in> set (objects db)"
    and cand: "candidate h now opts c l" by blast+
  from nextCursor_progress [OF wf snd pre mem cand k p v nc]
  have 1: "loPrefix opts \<le> curKey c1" and 2: "\<not> candidate h now opts c1 l"
    and 3: "\<forall>r \<in> set (objects db). candidate h now opts c1 r \<longrightarrow> candidate h now opts c r"
    by blast+
  from filter_shrinks [OF mem cand 2 3] 1 show ?thesis by simp
qed

lemma listLoop_terminates:
  assumes wf: "versionsInRange h db"
    and snd: "prefixLimitSound h (loPrefix opts)"
  shows "loPrefix opts \<le> curKey c \<Longrightarrow>
         length (filter (candidate h now opts c) (objects db)) < fuel \<Longrightarrow>
         listLoop fuel h now db opts b rep rl c st bs \<noteq> None"
proof (induction fuel arbitrary: rep rl c st bs)
  case 0
  then show ?case by simp
next
  case (Suc fuel)
  define st0 where "st0 = st\<lparr>foundDeleteMarker := False, scannedCount := 0, skipAhead := False\<rparr>"
  define rows where "rows = queryObjects h now db opts c b"
  show ?case
  proof (cases "read_entries opts rows st0")
    case (Inl r)
    then show ?thesis by (cases r) (simp add: st0_def rows_def Let_def)
  next
    case (Inr st1)
    show ?thesis
    proof (cases "nextCursor h opts st1")
      case (Inl e)
      then show ?thesis using Inr by (simp add: st0_def rows_def Let_def)
    next
      case c1: (Inr c1)
      show ?thesis
      proof (cases "scannedCount st1 = 0")
        case True
        then show ?thesis using Inr by (simp add: st0_def rows_def Let_def)
      next
        case False
        have ne: "st1 \<noteq> st0" using False by (auto simp: st0_def)
        from requery_progress [OF wf snd Suc.prems(1) Inr [unfolded rows_def] ne c1]
          Suc.prems(2)
        have 1: "loPrefix opts \<le> curKey c1"
          and m: "length (filter (candidate h now opts c1) (objects db)) < fuel" by simp_all
        from Suc.IH [OF 1 m]
        have "listLoop fuel h now db opts b (int64 (rep + 1))
                (if foundDeleteMarker st1 then int64 (rl + 1) else rl) c1 st1
                (bs @ [(rows, st0)]) \<noteq> None" .
        then show ?thesis using Inr c1 False
          by (simp add: st0_def rows_def Let_def)
      qed
    qed
  qed
qed

lemma StartCursor_prefix: "loPrefix opts \<le> curKey (StartCursor h opts)"
proof (cases "HasPrefix (curKey (Cursor opts)) (loPrefix opts)")
  case False
  then show ?thesis unfolding StartCursor_def LessObjectKey_def by auto
next
  case True
  then have t: "take (length (loPrefix opts)) (curKey (Cursor opts)) = loPrefix opts"
    unfolding HasPrefix_def .
  have "loPrefix opts \<le> take (n + length (loPrefix opts)) (curKey (Cursor opts)) @ DelimiterNext" for n
  proof -
    have "take (n + length (loPrefix opts)) (curKey (Cursor opts))
          = loPrefix opts @ take n (drop (length (loPrefix opts)) (curKey (Cursor opts)))"
      using t by (metis add.commute take_add)
    then show ?thesis using string_le_append by (metis append.assoc)
  qed
  then show ?thesis using True HasPrefix_le [OF True]
    unfolding StartCursor_def Let_def by (auto split: option.split)
qed

lemma ListObjectsRun_returns:
  assumes wf: "versionsInRange h db"
    and snd: "prefixLimitSound h (loPrefix opts)"
  shows "\<exists>r. ListObjectsRun (Suc (length (objects db))) h now db opts = Some r"
proof -
  have "length (filter (candidate h now opts (StartCursor h opts)) (objects db))
        < Suc (length (objects db))"
    by (simp add: le_imp_less_Suc)
  from listLoop_terminates [OF wf snd StartCursor_prefix this]
  show ?thesis unfolding ListObjectsRun_def by auto
qed



subsection \<open>The bounds of a run\<close>

lemma read_entries_return:
  assumes "read_entries opts rows st = Inl (r, objs)"
  shows "if Limit opts < 0 \<or> int (length objs) < Limit opts then r = Inl Panic
         else r = Inr \<lparr>Objects = take (nat (Limit opts)) objs, More = True\<rparr>"
  using assms
proof (induction rows arbitrary: st)
  case Nil
  then show ?case by simp
next
  case (Cons row rows)
  show ?case
  proof (cases "processRow opts row st")
    case (Return r' objs')
    with Cons.prems have eq: "r = r'" "objs = objs'" by simp_all
    from processRow_return [OF Return] show ?thesis unfolding eq by blast
  next
    case (Break st')
    then show ?thesis using Cons.prems by simp
  next
    case (Continue st')
    with Cons.prems have "read_entries opts rows st' = Inl (r, objs)" by simp
    then show ?thesis by (rule Cons.IH)
  qed
qed

lemma nextCursor_error: "nextCursor h opts st = Inl e \<Longrightarrow> e = Panic"
  unfolding nextCursor_def by (auto split: if_splits)

lemma hidingBatches_snoc:
  "int (length (hidingBatches opts (bs @ [(rows, st0)]))) =
     int (length (hidingBatches opts bs)) + (if hidesDeleteMarker opts rows st0 then 1 else 0)"
  unfolding hidingBatches_def by simp

text \<open>
  The requery limit after a batch: under the bound on the counters the increment does
  not wrap around, and it is made exactly when the batch hid a delete marker.
\<close>

lemma requeryLimit_after_batch:
  assumes re: "read_entries opts (queryObjects h now db opts c b) st0 = Inr st1"
    and nf: "\<not> foundDeleteMarker st0"
    and rl: "rl = Limit opts + 10 + int (length (hidingBatches opts bs))"
    and lim: "0 \<le> Limit opts"
    and pot: "rl + int (length (filter (candidate h now opts c) (objects db))) < 2 ^ 63"
  shows "(if foundDeleteMarker st1 then int64 (rl + 1) else rl) =
           Limit opts + 10 +
           int (length (hidingBatches opts (bs @ [(queryObjects h now db opts c b, st0)])))"
proof -
  from read_entries_found [OF re] nf
  have f: "foundDeleteMarker st1 \<longleftrightarrow> hidesDeleteMarker opts (queryObjects h now db opts c b) st0"
    by simp
  show ?thesis
  proof (cases "foundDeleteMarker st1")
    case False
    with f rl show ?thesis by (simp add: hidingBatches_snoc)
  next
    case True
    with f hidesDeleteMarker_row obtain row
      where "row \<in> set (queryObjects h now db opts c b)" by blast
    from queryObjects_subset [OF this]
    have "row \<in> set (filter (candidate h now opts c) (objects db))" by simp
    then have "1 \<le> int (length (filter (candidate h now opts c) (objects db)))"
      by (cases "filter (candidate h now opts c) (objects db)") simp_all
    with pot have "rl + 1 < 2 ^ 63" by linarith
    moreover from rl lim have "0 \<le> rl" by simp
    ultimately have "int64 (rl + 1) = rl + 1" by (intro int64_id) simp_all
    with True f rl show ?thesis by (simp add: hidingBatches_snoc)
  qed
qed

lemma listLoop_bounds:
  assumes wf: "versionsInRange h db"
    and snd: "prefixLimitSound h (loPrefix opts)"
    and lim: "0 \<le> Limit opts"
    and fit: "countersFit opts db"
  shows "int (length (stObjects st)) \<le> Limit opts \<Longrightarrow>
         0 \<le> rep \<Longrightarrow> rep \<le> rl \<Longrightarrow>
         rl = Limit opts + 10 + int (length (hidingBatches opts bs)) \<Longrightarrow>
         int (length bs) = rep \<Longrightarrow>
         loPrefix opts \<le> curKey c \<Longrightarrow>
         rl + int (length (filter (candidate h now opts c) (objects db)))
           \<le> Limit opts + 10 + int (length (objects db)) \<Longrightarrow>
         listLoop fuel h now db opts b rep rl c st bs = Some run \<Longrightarrow> runBounds opts run"
proof (induction fuel arbitrary: rep rl c st bs)
  case 0
  then show ?case by simp
next
  case (Suc fuel)
  define st0 where "st0 = st\<lparr>foundDeleteMarker := False, scannedCount := 0, skipAhead := False\<rparr>"
  define rows where "rows = queryObjects h now db opts c b"
  have len0: "int (length (stObjects st0)) \<le> Limit opts"
    using Suc.prems(1) by (simp add: st0_def)
  have nf: "\<not> foundDeleteMarker st0" by (simp add: st0_def)
  from fit lim have wrap1: "int64 (Limit opts + 1) = Limit opts + 1"
    unfolding countersFit_def by (intro int64_id) simp_all
  from fit Suc.prems(7)
  have pot: "rl + int (length (filter (candidate h now opts c) (objects db))) < 2 ^ 63"
    unfolding countersFit_def by simp
  note after = requeryLimit_after_batch [where b = b and ?st0.0 = st0, OF _ nf Suc.prems(4) lim pot,
      folded rows_def]
  from Suc.prems(8) show ?case
  proof (cases rule: listLoop_cases)
    case TooMany
    with Suc.prems(1-5) show ?thesis unfolding runBounds_def by auto
  next
    case SqlError
    with Suc.prems(1-5) show ?thesis unfolding runBounds_def by auto
  next
    case (Full r objs)
    from read_entries_bound [OF len0 lim wrap1, of rows] Full(2)
    have l: "int (length objs) = Limit opts + 1"
      and r: "r = Inr \<lparr>Objects = take (nat (Limit opts)) objs, More = True\<rparr>"
      by (auto simp: st0_def rows_def)
    with Full Suc.prems(2-5) lim show ?thesis unfolding runBounds_def by auto
  next
    case (Done st1)
    from Done(2) have re: "read_entries opts rows st0 = Inr st1"
      by (simp add: st0_def rows_def)
    from read_entries_bound [OF len0 lim wrap1, of rows] re
    have len1: "int (length (stObjects st1)) \<le> Limit opts" by simp
    note a = after [OF re]
    from a have ge: "rl \<le> (if foundDeleteMarker st1 then int64 (rl + 1) else rl)"
      using Suc.prems(4) by (simp add: hidingBatches_snoc split: if_splits)
    from Done(3) a len1 ge Done(1) Suc.prems(2,5)
    show ?thesis unfolding runBounds_def st0_def rows_def by auto
  next
    case (Panics st1 e)
    from Panics(2) have re: "read_entries opts rows st0 = Inr st1"
      by (simp add: st0_def rows_def)
    note a = after [OF re]
    from a have ge: "rl \<le> (if foundDeleteMarker st1 then int64 (rl + 1) else rl)"
      using Suc.prems(4) by (simp add: hidingBatches_snoc split: if_splits)
    from Panics(4) a ge Panics(1) Suc.prems(2,5) nextCursor_error [OF Panics(3)]
    show ?thesis unfolding runBounds_def st0_def rows_def by auto
  next
    case (Requery st1 c1)
    from Requery(2) have re: "read_entries opts rows st0 = Inr st1"
      by (simp add: st0_def rows_def)
    from read_entries_bound [OF len0 lim wrap1, of rows] re
    have len1: "int (length (stObjects st1)) \<le> Limit opts" by simp
    define rl1 where "rl1 = (if foundDeleteMarker st1 then int64 (rl + 1) else rl)"
    note a = after [OF re, folded rl1_def]
    from a Suc.prems(4) have rl1: "rl \<le> rl1" "rl1 \<le> rl + 1"
      by (simp_all add: hidingBatches_snoc split: if_splits)
    from Requery(3) have ne: "st1 \<noteq> st0" by (auto simp: st0_def)
    from requery_progress [OF wf snd Suc.prems(6) re [unfolded rows_def] ne Requery(4)]
    have pre1: "loPrefix opts \<le> curKey c1"
      and less: "length (filter (candidate h now opts c1) (objects db))
                   < length (filter (candidate h now opts c) (objects db))" by simp_all
    from pot Suc.prems(2) Requery(1) have rep1: "int64 (rep + 1) = rep + 1"
      by (intro int64_id) simp_all
    from rl1 less Suc.prems(7)
    have pot1: "rl1 + int (length (filter (candidate h now opts c1) (objects db)))
                  \<le> Limit opts + 10 + int (length (objects db))" by simp
    from Requery(5) have rec: "listLoop fuel h now db opts b (rep + 1) rl1 c1 st1
                                 (bs @ [(rows, st0)]) = Some run"
      by (simp add: rep1 rl1_def st0_def rows_def)
    show ?thesis
    proof (rule Suc.IH [OF len1 _ _ _ _ pre1 pot1 rec])
      show "0 \<le> rep + 1" using Suc.prems(2) by simp
      show "rep + 1 \<le> rl1" using Requery(1) rl1 by simp
      show "rl1 = Limit opts + 10 + int (length (hidingBatches opts (bs @ [(rows, st0)])))"
        using a by (simp add: rows_def)
      show "int (length (bs @ [(rows, st0)])) = rep + 1" using Suc.prems(5) by simp
    qed
  qed
qed

lemma listLoop_requery_const:
  assumes nodm: "AllVersions opts \<or> list_all (\<lambda>r. \<not> IsDeleteMarker (status r)) (objects db)"
  shows "listLoop fuel h now db opts b rep rl c st bs = Some run \<Longrightarrow> runRequeryLimit run = rl"
proof (induction fuel arbitrary: rep c st bs)
  case 0
  then show ?case by simp
next
  case (Suc fuel)
  have nf: "\<not> foundDeleteMarker st1"
    if re: "read_entries opts (queryObjects h now db opts c b)
         (st\<lparr>foundDeleteMarker := False, scannedCount := 0, skipAhead := False\<rparr>) = Inr st1"
    for st1
  proof
    assume "foundDeleteMarker st1"
    with read_entries_found [OF re]
    have "hidesDeleteMarker opts (queryObjects h now db opts c b)
            (st\<lparr>foundDeleteMarker := False, scannedCount := 0, skipAhead := False\<rparr>)"
      by simp
    from hidesDeleteMarker_row [OF this]
    obtain row where "\<not> AllVersions opts" "row \<in> set (queryObjects h now db opts c b)"
      "IsDeleteMarker (status row)"
      by auto
    moreover then have "row \<in> set (objects db)"
      using queryObjects_subset by blast
    ultimately show False using nodm by (auto simp: list_all_iff)
  qed
  from Suc.prems show ?case
  proof (cases rule: listLoop_cases)
    case (Requery st1 c1)
    with nf [OF Requery(2)] Suc.IH show ?thesis by simp
  qed (use nf in auto)
qed

subsection \<open>The first row of a key\<close>

lemma orderKey_key: "orderKey opts x \<le> orderKey opts y \<Longrightarrow> object_key x \<le> object_key y"
  unfolding orderKey_def by (auto simp: less_eq_prod_def)

lemma scan_key_cong:
  assumes "object_key x = object_key r"
  shows "IsPrefix (scanListObjectsEntry opts x) = IsPrefix (scanListObjectsEntry opts r) \<and>
         entObjectKey (scanListObjectsEntry opts x) = entObjectKey (scanListObjectsEntry opts r)"
  using assms unfolding scanListObjectsEntry_def selectedKey_def prefixEntry_def Let_def
  by (auto split: option.split)

lemma sameEntry_key_cong:
  "object_key x = object_key r \<Longrightarrow>
   sameEntry st (scanListObjectsEntry opts x) = sameEntry st (scanListObjectsEntry opts r)"
  unfolding sameEntry_def using scan_key_cong [of x r opts] by simp

lemma keyGroupInv_step:
  assumes inv: "keyGroupInv now opts db st (x # rs)"
    and set: "leSet st'"
    and same: "sameEntry st' (scanListObjectsEntry opts x)"
  shows "keyGroupInv now opts db st' rs"
proof -
  from inv have srt: "sorted (map (orderKey opts) (x # rs))"
    unfolding keyGroupInv_def by blast
  then have srt': "sorted (map (orderKey opts) rs)"
    and head: "\<And>y. y \<in> set rs \<Longrightarrow> orderKey opts x \<le> orderKey opts y"
    by auto
  have main: "r' \<in> set rs \<or>
           (leSet st' \<and> sameEntry st' (scanListObjectsEntry opts r) \<and>
            (\<forall>y \<in> set rs. orderKey opts y \<le> orderKey opts r \<longrightarrow> object_key y = object_key r))"
    if r: "r \<in> set rs" and r': "r' \<in> set (objects db)" and v: "visible now opts r'"
      and k: "object_key r' = object_key r" and lt: "orderKey opts r' < orderKey opts r"
    for r r'
  proof -
    from inv r r' v k lt
    have "r' \<in> set (x # rs) \<or>
           (leSet st \<and> sameEntry st (scanListObjectsEntry opts r) \<and>
            (\<forall>y \<in> set (x # rs). orderKey opts y \<le> orderKey opts r \<longrightarrow> object_key y = object_key r))"
      unfolding keyGroupInv_def by (metis list.set_intros(2))
    then consider (tail) "r' \<in> set rs" | (hd) "r' = x"
      | (old) "\<forall>y \<in> set (x # rs). orderKey opts y \<le> orderKey opts r \<longrightarrow> object_key y = object_key r"
      by auto
    then show ?thesis
    proof cases
      case tail
      then show ?thesis by simp
    next
      case hd
      with k have kx: "object_key x = object_key r" by simp
      have "object_key y = object_key r" if y: "y \<in> set rs" and le: "orderKey opts y \<le> orderKey opts r" for y
      proof -
        from head [OF y] have "object_key x \<le> object_key y" by (rule orderKey_key)
        moreover from le have "object_key y \<le> object_key r" by (rule orderKey_key)
        ultimately show ?thesis using kx by simp
      qed
      then show ?thesis using set same sameEntry_key_cong [OF kx, of st' opts] by blast
    next
      case old
      from head [OF r] old have kx: "object_key x = object_key r" by simp
      from old have "\<forall>y \<in> set rs. orderKey opts y \<le> orderKey opts r \<longrightarrow> object_key y = object_key r"
        by simp
      then show ?thesis using set same sameEntry_key_cong [OF kx, of st' opts] by blast
    qed
  qed
  from inv have mem: "\<forall>r \<in> set rs. r \<in> set (objects db) \<and> visible now opts r"
    unfolding keyGroupInv_def by simp
  show ?thesis unfolding keyGroupInv_def using srt' mem main by blast
qed

lemma keyGroupInv_first:
  assumes inv: "keyGroupInv now opts db st (x # rs)"
    and ns: "\<not> (leSet st \<and> sameEntry st (scanListObjectsEntry opts x))"
  shows "firstOfKey now opts db x"
proof -
  from inv have srt: "sorted (map (orderKey opts) (x # rs))"
    and mem: "x \<in> set (objects db)" and vis: "visible now opts x"
    unfolding keyGroupInv_def by auto
  from srt have head: "\<And>y. y \<in> set rs \<Longrightarrow> orderKey opts x \<le> orderKey opts y"
    by auto
  have "orderKey opts x \<le> orderKey opts r'"
    if r': "r' \<in> set (objects db)" and v: "visible now opts r'"
      and k: "object_key r' = object_key x" for r'
  proof (rule ccontr)
    assume "\<not> orderKey opts x \<le> orderKey opts r'"
    then have lt: "orderKey opts r' < orderKey opts x" by simp
    from inv r' v k lt ns have "r' \<in> set (x # rs)"
      unfolding keyGroupInv_def by (metis list.set_intros(1))
    then have "orderKey opts x \<le> orderKey opts r'" using head by auto
    with lt show False by simp
  qed
  then show ?thesis unfolding firstOfKey_def list_all_iff using mem vis by blast
qed

lemma emitted_good:
  assumes inv: "keyGroupInv now opts db st (x # rs)"
    and na: "\<not> AllVersions opts"
    and em: "emitted opts x st e"
  shows "goodEntry now opts db e"
proof -
  from em na have eo: "entryOfRow opts e x"
    and ns: "\<not> (leSet st \<and> sameEntry st (scanListObjectsEntry opts x))"
    and nd: "\<not> IsDeleteMarker (entStatus e)"
    unfolding emitted_def skipVersion_def by auto
  from keyGroupInv_first [OF inv ns] have f: "firstOfKey now opts db x" .
  then have mem: "x \<in> set (objects db)" unfolding firstOfKey_def by simp
  from eo have eq: "scanListObjectsEntry opts x = e\<lparr>IsLatest := False\<rparr>"
    unfolding entryOfRow_def by simp
  have "\<not> IsDeleteMarker (status x)" if np: "\<not> IsPrefix e"
  proof -
    have "\<not> IsPrefix (scanListObjectsEntry opts x)" unfolding eq using np by simp
    with scan_cases [of opts x] have "entStatus (scanListObjectsEntry opts x) = status x"
      by blast
    then have "entStatus e = status x" unfolding eq by simp
    with nd show ?thesis by simp
  qed
  moreover have "\<not> Recursive opts \<and> entStatus e = Prefix" if p: "IsPrefix e"
  proof -
    have "IsPrefix (scanListObjectsEntry opts x)" unfolding eq using p by simp
    with scan_cases [of opts x]
    have "\<not> Recursive opts \<and> entStatus (scanListObjectsEntry opts x) = Prefix"
      by blast
    then show ?thesis unfolding eq by simp
  qed
  ultimately show ?thesis unfolding goodEntry_def list_ex_iff using nd f mem eo by auto
qed

lemma read_entries_good:
  assumes na: "\<not> AllVersions opts"
  shows "keyGroupInv now opts db st rows \<Longrightarrow>
         \<forall>e \<in> set (stObjects st). goodEntry now opts db e \<Longrightarrow>
         (case read_entries opts rows st of
            Inr st1 \<Rightarrow> \<forall>e \<in> set (stObjects st1). goodEntry now opts db e
          | Inl (r, objs) \<Rightarrow> \<forall>e \<in> set objs. goodEntry now opts db e)"
proof (induction rows arbitrary: st)
  case Nil
  then show ?case by simp
next
  case (Cons row rows)
  have step: "\<forall>e \<in> set (stObjects st'). goodEntry now opts db e"
    if "processRow opts row st = Continue st' \<or> processRow opts row st = Break st'" for st'
    using processRow_objects [OF that] Cons.prems(2) emitted_good [OF Cons.prems(1) na]
    by auto
  show ?case
  proof (cases "processRow opts row st")
    case (Return r objs)
    from processRow_return [OF Return] Cons.prems(2) emitted_good [OF Cons.prems(1) na]
    have "\<forall>e \<in> set objs. goodEntry now opts db e" by auto
    then show ?thesis using Return by simp
  next
    case (Break st')
    with step [of st'] show ?thesis by simp
  next
    case (Continue st')
    from processRow_last [of opts row st st'] Continue
    have "leSet st'" "sameEntry st' (scanListObjectsEntry opts row)"
      unfolding sameEntry_def by simp_all
    from keyGroupInv_step [OF Cons.prems(1) this]
    have inv: "keyGroupInv now opts db st' rows" .
    from Cons.IH [OF inv step [of st']] Continue show ?thesis by simp
  qed
qed

lemma sorted_take_closed:
  assumes "sorted (map f xs)" and "r \<in> set (take n xs)" and "r' \<in> set xs" and "f r' < f r"
  shows "r' \<in> set (take n xs)"
proof -
  from assms(2) obtain i where i: "i < n" "i < length xs" "xs ! i = r"
    by (auto simp: in_set_conv_nth)
  from assms(3) obtain j where j: "j < length xs" "xs ! j = r'"
    by (auto simp: in_set_conv_nth)
  have "j < n"
  proof (rule ccontr)
    assume "\<not> j < n"
    with i have "i \<le> j" by simp
    with assms(1) j(1) have "map f xs ! i \<le> map f xs ! j"
      by (intro sorted_nth_mono) simp_all
    with i j assms(4) show False by simp
  qed
  with j show ?thesis by (auto simp: in_set_conv_nth)
qed

lemma candidate_key_cong:
  assumes wf: "versionsStrictlyInRange h db"
    and cv: "curVersion c = 0 \<or> curVersion c = MaxVersion h"
    and r: "r \<in> set (objects db)" and r': "r' \<in> set (objects db)"
    and k: "object_key r' = object_key r"
    and c: "candidate h now opts c r" and v: "visible now opts r'"
  shows "candidate h now opts c r'"
proof -
  from wf r r' have "0 < version r" "version r < MaxVersion h"
    "0 < version r'" "version r' < MaxVersion h"
    unfolding versionsStrictlyInRange_def list_all_iff by auto
  with cv c k have "afterCursor opts c r'"
    unfolding candidate_def afterCursor_def by (auto split: if_splits)
  with c k v show ?thesis unfolding candidate_def beforeStopKey_def by simp
qed

lemma queryObjects_inv:
  assumes wf: "versionsStrictlyInRange h db"
    and cv: "curVersion c = 0 \<or> curVersion c = MaxVersion h"
  shows "keyGroupInv now opts db st (queryObjects h now db opts c b)"
proof -
  define S where "S = sort_key (orderKey opts) (filter (candidate h now opts c) (objects db))"
  have q: "queryObjects h now db opts c b = take (nat b) S"
    unfolding queryObjects_def S_def ..
  have srtS: "sorted (map (orderKey opts) S)" unfolding S_def by simp
  have srt: "sorted (map (orderKey opts) (take (nat b) S))"
    using sorted_wrt_take [OF srtS, of "nat b"] by (simp add: take_map)
  have setS: "set S = {r \<in> set (objects db). candidate h now opts c r}"
    unfolding S_def by auto
  have "r' \<in> set (take (nat b) S)"
    if r: "r \<in> set (take (nat b) S)" and r': "r' \<in> set (objects db)"
      and v: "visible now opts r'" and k: "object_key r' = object_key r"
      and lt: "orderKey opts r' < orderKey opts r" for r r'
  proof -
    from r have rS: "r \<in> set S" by (rule in_set_takeD)
    with setS have rm: "r \<in> set (objects db)" and rc: "candidate h now opts c r" by auto
    from candidate_key_cong [OF wf cv rm r' k rc v] r' setS have "r' \<in> set S" by simp
    from sorted_take_closed [OF srtS r this lt] show ?thesis .
  qed
  moreover have "r \<in> set (objects db) \<and> visible now opts r" if "r \<in> set (take (nat b) S)" for r
    using in_set_takeD [OF that] setS unfolding candidate_def by auto
  ultimately show ?thesis unfolding keyGroupInv_def q using srt by blast
qed

lemma nextCursor_version:
  assumes "\<not> AllVersions opts" and "nextCursor h opts st = Inr c"
  shows "curVersion c = 0 \<or> curVersion c = MaxVersion h"
  using assms unfolding nextCursor_def FirstVersion_def lastVersion_def
  by (auto split: if_splits)

lemma StartCursor_version:
  "curVersion (StartCursor h opts) = 0 \<or> curVersion (StartCursor h opts) = MaxVersion h"
  unfolding StartCursor_def FirstVersion_def Let_def
  by (auto split: option.split)

lemma listLoop_good:
  assumes wf: "versionsStrictlyInRange h db"
    and na: "\<not> AllVersions opts"
  shows "curVersion c = 0 \<or> curVersion c = MaxVersion h \<Longrightarrow>
         \<forall>e \<in> set (stObjects st). goodEntry now opts db e \<Longrightarrow>
         listLoop fuel h now db opts b rep rl c st bs = Some run \<Longrightarrow>
         runResult run = Inr res \<Longrightarrow>
         \<forall>e \<in> set (Objects res). goodEntry now opts db e"
proof (induction fuel arbitrary: rep rl c st bs)
  case 0
  then show ?case by simp
next
  case (Suc fuel)
  define st0 where "st0 = st\<lparr>foundDeleteMarker := False, scannedCount := 0, skipAhead := False\<rparr>"
  define rows where "rows = queryObjects h now db opts c b"
  have inv: "keyGroupInv now opts db st0 rows"
    unfolding rows_def by (rule queryObjects_inv [OF wf Suc.prems(1)])
  have good0: "\<forall>e \<in> set (stObjects st0). goodEntry now opts db e"
    using Suc.prems(2) by (simp add: st0_def)
  note re = read_entries_good [OF na inv good0]
  from Suc.prems(3) show ?case
  proof (cases rule: listLoop_cases)
    case TooMany
    with Suc.prems(4) show ?thesis by simp
  next
    case SqlError
    with Suc.prems(4) show ?thesis by simp
  next
    case (Full r objs)
    from re Full(2) have good: "\<forall>e \<in> set objs. goodEntry now opts db e"
      by (simp add: st0_def rows_def)
    from Full(3) Suc.prems(4) have "r = Inr res" by simp
    with read_entries_return [OF Full(2)]
    have "Objects res = take (nat (Limit opts)) objs" by (auto split: if_splits)
    then show ?thesis using good by (auto dest: in_set_takeD)
  next
    case (Done st1)
    from re Done(2) have "\<forall>e \<in> set (stObjects st1). goodEntry now opts db e"
      by (simp add: st0_def rows_def)
    moreover from Done(3) Suc.prems(4) have "Objects res = stObjects st1" by auto
    ultimately show ?thesis by simp
  next
    case (Panics st1 e)
    with Suc.prems(4) show ?thesis by simp
  next
    case (Requery st1 c1)
    from re Requery(2) have good1: "\<forall>e \<in> set (stObjects st1). goodEntry now opts db e"
      by (simp add: st0_def rows_def)
    show ?thesis
      by (rule Suc.IH [OF nextCursor_version [OF na Requery(4)] good1 Requery(5) Suc.prems(4)])
  qed
qed

lemma first_not_newest:
  assumes uniq: "objectsKeyUnique db"
    and desc: "\<not> VersionAscending opts"
    and first: "firstOfKey now opts db r"
    and nd: "\<not> IsDeleteMarker (status r)"
  shows "\<not> newestIsDeleteMarker now opts db (object_key r)"
proof
  assume "newestIsDeleteMarker now opts db (object_key r)"
  then obtain d where d: "d \<in> set (objects db)" and vd: "visible now opts d"
    and kd: "object_key d = object_key r" and dm: "IsDeleteMarker (status d)"
    and newest: "\<forall>r' \<in> set (objects db). visible now opts r' \<and> object_key r' = object_key r
                   \<longrightarrow> version r' \<le> version d"
    unfolding newestIsDeleteMarker_def list_ex_iff list_all_iff by blast
  from first have r: "r \<in> set (objects db)" and vr: "visible now opts r"
    and le: "orderKey opts r \<le> orderKey opts d"
    using d vd kd unfolding firstOfKey_def list_all_iff by auto
  from newest r vr have "version r \<le> version d" by simp
  moreover from le desc kd have "version d \<le> version r"
    unfolding orderKey_def by (auto simp: less_eq_prod_def)
  ultimately have "version d = version r" by simp
  with kd vd vr have "objectsKey d = objectsKey r"
    unfolding objectsKey_def visible_def inBucket_def by simp
  moreover from uniq have "inj_on objectsKey (set (objects db))"
    unfolding objectsKeyUnique_def by (simp add: distinct_map)
  ultimately have "d = r" using d r by (auto dest: inj_onD)
  with dm nd show False by simp
qed


subsection \<open>The listing examples\<close>

lemmas example_row_defs = exampleListRow_def exampleObjectRow_def

lemmas example_step_defs = processRow_def skipPrefix_def skipVersion_def sameEntry_def
  skipCursorAllVersionsDoubleCheck_def entryKeyMatchesCursor_def markLatest_def
  setLastEntry_def IsDeleteMarker_def int64_def Let_def

lemmas example_query_defs = queryObjects_def candidate_def afterCursor_def
  beforeStopKey_def visible_def inBucket_def statusCondition_def notExpired_def
  example_row_defs orderKey_def less_eq_prod_def less_eq_list_code less_list_code
  less_char_def less_eq_char_def

lemma example_opts:
  "AllVersions (exampleList r av p lim) = av" "Limit (exampleList r av p lim) = lim"
  "loPending (exampleList r av p lim) = False" "loPrefix (exampleList r av p lim) = p"
  "Cursor (exampleList r av p lim) = \<lparr>curKey = [], curVersion = 0\<rparr>"
  "Params (exampleList r av p lim) = \<lparr>VersionSkipRequery = 1000, PrefixSkipRequery = 1000,
                 QueryExtraForNonRecursive = 10, MinBatchSize = 2\<rparr>"
  "Recursive (exampleList r av p lim) = r"
  "loProjectID (exampleList r av p lim) = 1" "loBucketName (exampleList r av p lim) = ''b1''"
  "VersionAscending (exampleList r av p lim) = False"
  "IncludeCustomMetadata (exampleList r av p lim) = False"
  "IncludeSystemMetadata (exampleList r av p lim) = False"
  "Unversioned (exampleList r av p lim) = False"
  by (simp_all add: exampleList_def VersionAscending_def)

lemma example_unversioned_opts:
  "AllVersions exampleUnversionedList = False" "Limit exampleUnversionedList = 10"
  "loPending exampleUnversionedList = False" "loPrefix exampleUnversionedList = []"
  "Cursor exampleUnversionedList = \<lparr>curKey = [], curVersion = 0\<rparr>"
  "Params exampleUnversionedList = \<lparr>VersionSkipRequery = 1000, PrefixSkipRequery = 1000,
                 QueryExtraForNonRecursive = 10, MinBatchSize = 2\<rparr>"
  "Recursive exampleUnversionedList = True"
  "loProjectID exampleUnversionedList = 1" "loBucketName exampleUnversionedList = ''b1''"
  "VersionAscending exampleUnversionedList = True"
  "IncludeCustomMetadata exampleUnversionedList = False"
  "IncludeSystemMetadata exampleUnversionedList = False"
  "Unversioned exampleUnversionedList = True"
  by (simp_all add: exampleUnversionedList_def exampleList_def VersionAscending_def)

lemma example_start:
  "StartCursor exampleHelpers (exampleList r av [] lim) =
     \<lparr>curKey = [], curVersion = 9223372036854775807\<rparr>"
  "StartCursor exampleHelpers (exampleList True False ''a/'' 1) =
     \<lparr>curKey = ''a/'', curVersion = 9223372036854775807\<rparr>"
  "StartCursor exampleHelpers exampleUnversionedList = \<lparr>curKey = [], curVersion = 0\<rparr>"
  by (simp_all add: StartCursor_def example_opts example_unversioned_opts HasPrefix_def
      LessObjectKey_def FirstVersion_def exampleHelpers_def less_list_code Let_def)

lemma example_batch:
  "batchSizeOf (exampleList True av p 10) = 11" "batchSizeOf (exampleList True av p 1) = 2"
  "batchSizeOf (exampleList False av p 10) = 21" "batchSizeOf exampleUnversionedList = 11"
  by (simp_all add: batchSizeOf_def example_opts example_unversioned_opts int64_def Let_def)

lemma example_requery_limit:
  "int64 (Limit (exampleList r av p 10) + 10) = 20"
  "int64 (Limit (exampleList r av p 1) + 10) = 11"
  "int64 (Limit exampleUnversionedList + 10) = 20"
  by (simp_all add: example_opts example_unversioned_opts int64_def)

lemma example_query:
  "queryObjects exampleHelpers 0 exampleListDB (exampleList True av [] lim)
     \<lparr>curKey = [], curVersion = 9223372036854775807\<rparr> 11 = exampleBatch"
  "queryObjects exampleHelpers 0 exampleListDB (exampleList True av [] lim)
     \<lparr>curKey = [], curVersion = 9223372036854775807\<rparr> 2 = exampleShortBatch"
  "queryObjects exampleHelpers 0 exampleListDB (exampleList True av [] lim)
     \<lparr>curKey = ''k'', curVersion = 0\<rparr> 2 = []"
  by (simp_all add: example_query_defs exampleListDB_def example_opts exampleBatch_def
      exampleShortBatch_def)

lemma example_scan:
  "scanListObjectsEntry (exampleList True av [] lim) (exampleListRow key v st) =
     exampleEntry key v st False"
  "scanListObjectsEntry exampleUnversionedList (exampleListRow key v st) =
     exampleEntry key v st False"
  by (simp_all add: scanListObjectsEntry_def example_opts example_unversioned_opts
      example_row_defs selectedKey_def exampleEntry_def emptyUserData_def Let_def)

lemma example_initial:
  "initialListState\<lparr>foundDeleteMarker := False, scannedCount := 0, skipAhead := False\<rparr> =
     initialListState"
  by (simp add: initialListState_def)

lemma example_read:
  "read_entries (exampleList True False [] 10) exampleBatch initialListState =
   Inr \<lparr>stObjects = [exampleEntry ''b'' 1 CommittedVersioned True], leSet = True,
        leObjectKey = ''k'', leVersion = 1, leIsPrefix = False, scPrefix = 0, scVersion = 1,
        foundDeleteMarker = True, scannedCount = 3, skipAhead = False\<rparr>"
  by (simp add: exampleBatch_def example_scan example_step_defs example_opts
      initialListState_def exampleEntry_def)

lemma example_read_hidden:
  "read_entries (exampleList True False [] 1) exampleShortBatch initialListState =
     Inr exampleAfterShortBatch"
  by (simp add: exampleShortBatch_def exampleAfterShortBatch_def example_scan
      example_step_defs example_opts initialListState_def exampleEntry_def)

lemma example_read_full:
  "read_entries (exampleList True True [] 1) exampleShortBatch initialListState =
   Inl (Inr \<lparr>Objects = [exampleEntry ''b'' 1 CommittedVersioned True], More = True\<rparr>,
        [exampleEntry ''b'' 1 CommittedVersioned True,
         exampleEntry ''k'' 2 DeleteMarkerVersioned True])"
  by (simp add: exampleShortBatch_def example_scan example_step_defs example_opts
      initialListState_def exampleEntry_def)

lemma example_read_all:
  "read_entries (exampleList True True [] 10) exampleBatch initialListState =
   Inr \<lparr>stObjects = [exampleEntry ''b'' 1 CommittedVersioned True,
                      exampleEntry ''k'' 2 DeleteMarkerVersioned True,
                      exampleEntry ''k'' 1 CommittedVersioned False], leSet = True,
        leObjectKey = ''k'', leVersion = 1, leIsPrefix = False, scPrefix = 0, scVersion = 0,
        foundDeleteMarker = False, scannedCount = 3, skipAhead = False\<rparr>"
  by (simp add: exampleBatch_def example_scan example_step_defs example_opts
      initialListState_def exampleEntry_def)

lemma example_run:
  "ListObjectsRun 1 exampleHelpers 0 exampleListDB (exampleList True False [] 10) =
     Some \<lparr>runResult = Inr \<lparr>Objects = [exampleEntry ''b'' 1 CommittedVersioned True],
                             More = False\<rparr>,
           runAccumulated = [exampleEntry ''b'' 1 CommittedVersioned True],
           runRepeat = 0, runRequeryLimit = 21,
           runBatches = [(exampleBatch, initialListState)]\<rparr>"
  unfolding ListObjectsRun_def example_batch example_start example_requery_limit One_nat_def
    listLoop.simps example_query example_initial Let_def example_read
  by (simp add: int64_def)

lemma example_run_all:
  "ListObjectsRun 1 exampleHelpers 0 exampleListDB (exampleList True True [] 10) =
     Some \<lparr>runResult = Inr \<lparr>Objects = [exampleEntry ''b'' 1 CommittedVersioned True,
                                        exampleEntry ''k'' 2 DeleteMarkerVersioned True,
                                        exampleEntry ''k'' 1 CommittedVersioned False],
                             More = False\<rparr>,
           runAccumulated = [exampleEntry ''b'' 1 CommittedVersioned True,
                             exampleEntry ''k'' 2 DeleteMarkerVersioned True,
                             exampleEntry ''k'' 1 CommittedVersioned False],
           runRepeat = 0, runRequeryLimit = 20,
           runBatches = [(exampleBatch, initialListState)]\<rparr>"
  unfolding ListObjectsRun_def example_batch example_start example_requery_limit One_nat_def
    listLoop.simps example_query example_initial Let_def example_read_all
  by simp

lemma example_run_hidden:
  "ListObjectsRun (Suc (length (objects exampleListDB))) exampleHelpers 0 exampleListDB
     (exampleList True False [] 1) =
     Some \<lparr>runResult = Inr \<lparr>Objects = [exampleEntry ''b'' 1 CommittedVersioned True],
                             More = False\<rparr>,
           runAccumulated = [exampleEntry ''b'' 1 CommittedVersioned True],
           runRepeat = 1, runRequeryLimit = 12,
           runBatches =
             [(exampleShortBatch, initialListState),
              ([], exampleAfterShortBatch\<lparr>foundDeleteMarker := False, scannedCount := 0\<rparr>)]\<rparr>"
proof -
  have len: "Suc (length (objects exampleListDB)) = Suc (Suc 3)"
    by (simp add: exampleListDB_def)
  have nc: "nextCursor exampleHelpers (exampleList True False [] 1) exampleAfterShortBatch =
      Inr \<lparr>curKey = ''k'', curVersion = 0\<rparr>"
    by (simp add: nextCursor_def example_opts lastVersion_def exampleAfterShortBatch_def)
  have st: "foundDeleteMarker exampleAfterShortBatch" "scannedCount exampleAfterShortBatch = 2"
    "\<not> skipAhead exampleAfterShortBatch"
    "exampleAfterShortBatch\<lparr>foundDeleteMarker := False, scannedCount := 0, skipAhead := False\<rparr>
       = exampleAfterShortBatch\<lparr>foundDeleteMarker := False, scannedCount := 0\<rparr>"
    "stObjects (exampleAfterShortBatch\<lparr>foundDeleteMarker := False, scannedCount := 0\<rparr>)
       = [exampleEntry ''b'' 1 CommittedVersioned True]"
    "\<not> foundDeleteMarker (exampleAfterShortBatch\<lparr>foundDeleteMarker := False, scannedCount := 0\<rparr>)"
    "scannedCount (exampleAfterShortBatch\<lparr>foundDeleteMarker := False, scannedCount := 0\<rparr>) = 0"
    by (simp_all add: exampleAfterShortBatch_def)
  have w: "int64 12 = 12" "int64 1 = 1"
    by (simp_all add: int64_def)
  show ?thesis
    unfolding ListObjectsRun_def example_batch example_start example_requery_limit len
      listLoop.simps example_query example_initial Let_def example_read_hidden
    by (simp add: nc st w example_query)
qed

lemma example_run_full:
  "ListObjectsRun (Suc (length (objects exampleListDB))) exampleHelpers 0 exampleListDB
     (exampleList True True [] 1) =
     Some \<lparr>runResult = Inr \<lparr>Objects = [exampleEntry ''b'' 1 CommittedVersioned True],
                             More = True\<rparr>,
           runAccumulated = [exampleEntry ''b'' 1 CommittedVersioned True,
                             exampleEntry ''k'' 2 DeleteMarkerVersioned True],
           runRepeat = 0, runRequeryLimit = 11, runBatches = []\<rparr>"
proof -
  have len: "Suc (length (objects exampleListDB)) = Suc (Suc 3)"
    by (simp add: exampleListDB_def)
  show ?thesis
    unfolding ListObjectsRun_def example_batch example_start example_requery_limit len
      listLoop.simps example_query example_initial Let_def example_read_full
    by simp
qed


lemma example_run_unversioned:
  "ListObjectsRun 1 exampleHelpers 0 exampleListDB exampleUnversionedList =
     Some \<lparr>runResult = Inr \<lparr>Objects = [exampleEntry ''b'' 1 CommittedVersioned True,
                                        exampleEntry ''k'' 1 CommittedVersioned True],
                             More = False\<rparr>,
           runAccumulated = [exampleEntry ''b'' 1 CommittedVersioned True,
                             exampleEntry ''k'' 1 CommittedVersioned True],
           runRepeat = 0, runRequeryLimit = 20,
           runBatches =
             [([exampleListRow ''b'' 1 CommittedVersioned,
                exampleListRow ''k'' 1 CommittedVersioned,
                exampleListRow ''k'' 2 DeleteMarkerVersioned], initialListState)]\<rparr>"
proof -
  have q: "queryObjects exampleHelpers 0 exampleListDB exampleUnversionedList
             \<lparr>curKey = [], curVersion = 0\<rparr> 11 =
           [exampleListRow ''b'' 1 CommittedVersioned,
            exampleListRow ''k'' 1 CommittedVersioned,
            exampleListRow ''k'' 2 DeleteMarkerVersioned]"
    by (simp add: example_query_defs exampleListDB_def example_unversioned_opts)
  have r: "read_entries exampleUnversionedList
     [exampleListRow ''b'' 1 CommittedVersioned,
      exampleListRow ''k'' 1 CommittedVersioned,
      exampleListRow ''k'' 2 DeleteMarkerVersioned] initialListState =
   Inr \<lparr>stObjects = [exampleEntry ''b'' 1 CommittedVersioned True,
                      exampleEntry ''k'' 1 CommittedVersioned True], leSet = True,
        leObjectKey = ''k'', leVersion = 2, leIsPrefix = False, scPrefix = 0, scVersion = 1,
        foundDeleteMarker = False, scannedCount = 3, skipAhead = False\<rparr>"
    by (simp add: example_scan example_step_defs example_unversioned_opts
        initialListState_def exampleEntry_def)
  show ?thesis
    unfolding ListObjectsRun_def example_batch example_start example_requery_limit One_nat_def
      listLoop.simps q example_initial Let_def r
    by simp
qed

lemma example_run_deleted_prefix:
  "ListObjectsRun 1 exampleHelpers 0 exampleDeletedPrefixDB (exampleList False False [] 10) =
     Some \<lparr>runResult = Inr \<lparr>Objects = [prefixEntry ''a/''], More = False\<rparr>,
           runAccumulated = [prefixEntry ''a/''],
           runRepeat = 0, runRequeryLimit = 20,
           runBatches =
             [([exampleListRow ''a/x'' 1 DeleteMarkerVersioned], initialListState)]\<rparr>"
proof -
  have q: "queryObjects exampleHelpers 0 exampleDeletedPrefixDB (exampleList False False [] 10)
             \<lparr>curKey = [], curVersion = 9223372036854775807\<rparr> 21 =
           [exampleListRow ''a/x'' 1 DeleteMarkerVersioned]"
    by (simp add: example_query_defs exampleDeletedPrefixDB_def example_opts)
  have sc: "scanListObjectsEntry (exampleList False False [] 10)
              (exampleListRow ''a/x'' 1 DeleteMarkerVersioned) = prefixEntry ''a/''"
    by (simp add: scanListObjectsEntry_def example_opts example_row_defs selectedKey_def
        Delimiter_def Let_def)
  have r: "read_entries (exampleList False False [] 10)
     [exampleListRow ''a/x'' 1 DeleteMarkerVersioned] initialListState =
   Inr \<lparr>stObjects = [prefixEntry ''a/''], leSet = True,
        leObjectKey = ''a/'', leVersion = 0, leIsPrefix = True, scPrefix = 0, scVersion = 0,
        foundDeleteMarker = False, scannedCount = 1, skipAhead = False\<rparr>"
    by (simp add: sc example_step_defs example_opts initialListState_def prefixEntry_def)
  show ?thesis
    unfolding ListObjectsRun_def example_batch example_start example_requery_limit One_nat_def
      listLoop.simps q example_initial Let_def r
    by simp
qed

lemma example_list_db:
  "versionsStrictlyInRange exampleHelpers exampleListDB"
  "versionsInRange exampleHelpers exampleListDB"
  "objectsKeyUnique exampleListDB"
  "countersFit (exampleList r av p 1) exampleListDB"
  by (simp_all add: versionsStrictlyInRange_def versionsInRange_def objectsKeyUnique_def
      objectsKey_def exampleListDB_def example_row_defs exampleHelpers_def countersFit_def
      example_opts)

lemma example_newest:
  "newestIsDeleteMarker 0 (exampleList True False [] 10) exampleListDB ''k''"
  "newestIsDeleteMarker 0 exampleUnversionedList exampleListDB ''k''"
  "newestIsDeleteMarker 0 (exampleList False False [] 10) exampleDeletedPrefixDB ''a/x''"
  by (simp_all add: newestIsDeleteMarker_def exampleListDB_def exampleDeletedPrefixDB_def
      example_row_defs visible_def inBucket_def statusCondition_def notExpired_def
      example_opts example_unversioned_opts IsDeleteMarker_def)

lemma example_prefix_limit: "PrefixLimit exampleHelpers ''a/'' = ''a0''"
proof -
  have "of_char (CHR ''/'') + (1 :: nat) = of_char (CHR ''0'')" by simp
  then have "char_of (of_char (CHR ''/'') + (1 :: nat)) = CHR ''0''"
    by (simp only: char_of_char)
  then show ?thesis by (simp add: exampleHelpers_def)
qed

lemma between_slash_zero:
  assumes "CHR ''/'' \<le> c" and "c < CHR ''0''"
  shows "c = CHR ''/''"
proof -
  from assms have "of_char c = (47 :: nat)"
    by (simp add: less_eq_char_def less_char_def)
  then have "of_char c = (of_char (CHR ''/'') :: nat)" by simp
  then show ?thesis by (simp only: of_char_eq_iff)
qed

lemma example_prefix_sound: "prefixLimitSound exampleHelpers ''a/''"
proof -
  have "HasPrefix k ''a/''" if le: "''a/'' \<le> k" and lt: "k < ''a0''" for k
  proof (cases k)
    case Nil
    with le show ?thesis by (simp add: less_eq_list_code)
  next
    case k: (Cons c1 k1)
    from le lt k have c1: "c1 = CHR ''a''" and le1: "''/'' \<le> k1" and lt1: "k1 < ''0''"
      by (auto simp: less_eq_list_code less_list_code)
    show ?thesis
    proof (cases k1)
      case Nil
      with le1 show ?thesis by (simp add: less_eq_list_code)
    next
      case (Cons c2 k2)
      with le1 lt1 have "CHR ''/'' \<le> c2" "c2 < CHR ''0''"
        by (auto simp: less_eq_list_code less_list_code)
      then have "c2 = CHR ''/''" by (rule between_slash_zero)
      with k c1 Cons show ?thesis by (simp add: HasPrefix_def)
    qed
  qed
  then show ?thesis unfolding prefixLimitSound_def example_prefix_limit by blast
qed

lemma example_prefix_run:
  "ListObjectsRun (Suc (length (objects examplePrefixDB))) exampleHelpers 0 examplePrefixDB
     (exampleList True False ''a/'' 1) =
     Some \<lparr>runResult = Inr \<lparr>Objects = [exampleEntry ''x'' 1 CommittedVersioned True],
                             More = False\<rparr>,
           runAccumulated = [exampleEntry ''x'' 1 CommittedVersioned True],
           runRepeat = 0, runRequeryLimit = 11,
           runBatches = [([exampleListRow ''a/x'' 1 CommittedVersioned], initialListState)]\<rparr>"
proof -
  have len: "Suc (length (objects examplePrefixDB)) = Suc 2"
    by (simp add: examplePrefixDB_def)
  have q: "queryObjects exampleHelpers 0 examplePrefixDB (exampleList True False ''a/'' 1)
             \<lparr>curKey = ''a/'', curVersion = 9223372036854775807\<rparr> 2 =
           [exampleListRow ''a/x'' 1 CommittedVersioned]"
    by (simp add: example_query_defs examplePrefixDB_def example_opts example_prefix_limit)
  have sc: "scanListObjectsEntry (exampleList True False ''a/'' 1)
              (exampleListRow ''a/x'' 1 CommittedVersioned) =
            exampleEntry ''x'' 1 CommittedVersioned False"
    by (simp add: scanListObjectsEntry_def example_opts example_row_defs selectedKey_def
      exampleEntry_def emptyUserData_def Let_def)
  have r: "read_entries (exampleList True False ''a/'' 1)
     [exampleListRow ''a/x'' 1 CommittedVersioned] initialListState =
   Inr \<lparr>stObjects = [exampleEntry ''x'' 1 CommittedVersioned True], leSet = True,
        leObjectKey = ''x'', leVersion = 1, leIsPrefix = False, scPrefix = 0, scVersion = 0,
        foundDeleteMarker = False, scannedCount = 1, skipAhead = False\<rparr>"
    by (simp add: sc example_step_defs example_opts initialListState_def exampleEntry_def)
  show ?thesis
    unfolding ListObjectsRun_def example_batch example_start example_requery_limit len
      listLoop.simps q example_initial Let_def r
    by simp
qed

lemma example_prefix_db:
  "versionsInRange exampleHelpers examplePrefixDB"
  "countersFit (exampleList r av p 1) examplePrefixDB"
  by (simp_all add: versionsInRange_def examplePrefixDB_def example_row_defs
      exampleHelpers_def countersFit_def example_opts)


subsection \<open>Delete markers in a listing of latest versions\<close>

text \<open>
  C7 (as amended). For every call of \<open>ListObjects\<close> with \<open>AllVersions = false\<close> that returns
  a result, on a table with a unique primary key and versions strictly between 0 and
  \<open>MaxVersion\<close>: no entry of the result is a delete marker, and every entry is the entry
  of a row that is the first of its key in the order of the listing, so that a delete
  marker that comes first is consumed and hides the later rows of its key. A prefix
  entry occurs only in a listing that is not recursive and has the status \<open>Prefix\<close>,
  whatever the status of its row. An object entry comes from a row that is no delete
  marker, and where the listing descends through the versions (neither \<open>Pending\<close> nor
  \<open>Unversioned\<close>) the key of that row does not have a delete marker as its newest
  version.
\<close>

theorem ListObjects_hides_delete_markers:
  assumes "versionsStrictlyInRange h db"
    and "objectsKeyUnique db"
    and "\<not> AllVersions opts"
    and "ListObjects fuel h now db opts = Some (Inr res)"
    and "e \<in> set (Objects res)"
  shows "\<not> IsDeleteMarker (entStatus e) \<and>
         (\<exists>r \<in> set (objects db).
            entryOfRow opts e r \<and> firstOfKey now opts db r \<and>
            (IsPrefix e \<longrightarrow> \<not> Recursive opts \<and> entStatus e = Prefix) \<and>
            (\<not> IsPrefix e \<longrightarrow>
               \<not> IsDeleteMarker (status r) \<and>
               (\<not> VersionAscending opts \<longrightarrow>
                  \<not> newestIsDeleteMarker now opts db (object_key r))))"
proof -
  from assms(4) obtain run where run: "ListObjectsRun fuel h now db opts = Some run"
    and res: "runResult run = Inr res"
    unfolding ListObjects_def by auto
  have "\<forall>e \<in> set (Objects res). goodEntry now opts db e"
    by (rule listLoop_good [OF assms(1) assms(3) StartCursor_version _
          run [unfolded ListObjectsRun_def] res])
       (simp add: initialListState_def)
  with assms(5) have "goodEntry now opts db e" by simp
  then obtain r where r: "r \<in> set (objects db)" "firstOfKey now opts db r"
    "entryOfRow opts e r"
    and st: "if IsPrefix e then \<not> Recursive opts \<and> entStatus e = Prefix
             else \<not> IsDeleteMarker (status r)"
    and nd: "\<not> IsDeleteMarker (entStatus e)"
    unfolding goodEntry_def list_ex_iff by blast
  have "\<not> newestIsDeleteMarker now opts db (object_key r)"
    if "\<not> IsPrefix e" "\<not> VersionAscending opts"
    using that st first_not_newest [OF assms(2) that(2) r(2)] by simp
  with r st nd show ?thesis by (auto split: if_splits)
qed

theorem ListObjects_hides_delete_markers_witness:
  "versionsStrictlyInRange exampleHelpers exampleListDB \<and>
   objectsKeyUnique exampleListDB \<and>
   \<not> AllVersions (exampleList True False [] 10) \<and>
   ListObjects 1 exampleHelpers 0 exampleListDB (exampleList True False [] 10) =
     Some (Inr \<lparr>Objects = [exampleEntry ''b'' 1 CommittedVersioned True], More = False\<rparr>) \<and>
   newestIsDeleteMarker 0 (exampleList True False [] 10) exampleListDB ''k'' \<and>
   \<not> IsDeleteMarker (entStatus (exampleEntry ''b'' 1 CommittedVersioned True)) \<and>
   (\<exists>r \<in> set (objects exampleListDB).
      entryOfRow (exampleList True False [] 10) (exampleEntry ''b'' 1 CommittedVersioned True) r \<and>
      firstOfKey 0 (exampleList True False [] 10) exampleListDB r \<and>
      \<not> IsDeleteMarker (status r) \<and>
      \<not> newestIsDeleteMarker 0 (exampleList True False [] 10) exampleListDB (object_key r))"
proof -
  have run: "ListObjects 1 exampleHelpers 0 exampleListDB (exampleList True False [] 10) =
     Some (Inr \<lparr>Objects = [exampleEntry ''b'' 1 CommittedVersioned True], More = False\<rparr>)"
    unfolding ListObjects_def example_run by simp
  have na: "\<not> AllVersions (exampleList True False [] 10)"
    by (simp add: example_opts)
  have mem: "exampleEntry ''b'' 1 CommittedVersioned True
             \<in> set (Objects \<lparr>Objects = [exampleEntry ''b'' 1 CommittedVersioned True],
                               More = False\<rparr>)"
    by simp
  have np: "\<not> IsPrefix (exampleEntry ''b'' 1 CommittedVersioned True)"
    by (simp add: exampleEntry_def)
  from ListObjects_hides_delete_markers [OF example_list_db(1) example_list_db(3) na run mem]
    np example_opts(10) [of True False "[]" 10]
  have "\<not> IsDeleteMarker (entStatus (exampleEntry ''b'' 1 CommittedVersioned True)) \<and>
   (\<exists>r \<in> set (objects exampleListDB).
      entryOfRow (exampleList True False [] 10) (exampleEntry ''b'' 1 CommittedVersioned True) r \<and>
      firstOfKey 0 (exampleList True False [] 10) exampleListDB r \<and>
      \<not> IsDeleteMarker (status r) \<and>
      \<not> newestIsDeleteMarker 0 (exampleList True False [] 10) exampleListDB (object_key r))"
    by simp
  with example_list_db(1) example_list_db(3) na run example_newest(1)
  show ?thesis by blast
qed

text \<open>
  The claim as stated fails for a listing that ascends through the versions: with the
  flag \<open>Unversioned\<close> the listing of latest versions visits version 1 of the key \<open>k\<close>
  first and returns it, although the newest version of \<open>k\<close>, version 2, is a delete marker
  (which the loop then skips as a further version of the last entry). And a listing that
  is not recursive returns the prefix \<open>a/\<close> for the key \<open>a/x\<close>, whose only version is a
  delete marker.
\<close>

theorem ListObjects_ascending_counterexample:
  "\<not> AllVersions exampleUnversionedList \<and>
   ListObjects 1 exampleHelpers 0 exampleListDB exampleUnversionedList =
     Some (Inr \<lparr>Objects = [exampleEntry ''b'' 1 CommittedVersioned True,
                             exampleEntry ''k'' 1 CommittedVersioned True], More = False\<rparr>) \<and>
   entObjectKey (exampleEntry ''k'' 1 CommittedVersioned True) = ''k'' \<and>
   newestIsDeleteMarker 0 exampleUnversionedList exampleListDB ''k'' \<and>
   \<not> AllVersions (exampleList False False [] 10) \<and>
   ListObjects 1 exampleHelpers 0 exampleDeletedPrefixDB (exampleList False False [] 10) =
     Some (Inr \<lparr>Objects = [prefixEntry ''a/''], More = False\<rparr>) \<and>
   newestIsDeleteMarker 0 (exampleList False False [] 10) exampleDeletedPrefixDB ''a/x''"
  unfolding ListObjects_def example_run_unversioned example_run_deleted_prefix
  using example_newest(2,3)
  by (simp add: example_unversioned_opts example_opts exampleEntry_def)

subsection \<open>Termination and the size of the result\<close>

text \<open>
  C8 (as amended). Every call of \<open>ListObjects\<close> with a limit that is not negative and
  leaves room for the counters, on a table whose versions lie between 0 and \<open>MaxVersion\<close>
  and with a sound prefix limit, terminates: it returns within one batch more than the
  table has rows. Whenever it returns, the loop has run at most \<open>requeryLimit\<close> times,
  and has used \<open>requeryLimit\<close> up exactly when the call fails with too many requeries;
  \<open>requeryLimit\<close> is \<open>Limit + 10\<close> and one more for every batch read in which the loop
  hid a delete marker, and not for a batch that only contains one: it stays
  \<open>Limit + 10\<close> when all versions are listed or the table has no delete marker. Every
  requery has read a batch. A result has at most \<open>Limit\<close> entries, it is the accumulated
  slice cut to \<open>Limit\<close>, and \<open>More\<close> is true exactly when \<open>Limit + 1\<close> entries had been
  accumulated.
\<close>

theorem ListObjects_terminates_bounded:
  assumes "versionsInRange h db"
    and "prefixLimitSound h (loPrefix opts)"
    and "0 \<le> Limit opts"
    and "countersFit opts db"
  shows "(\<exists>r. ListObjects (Suc (length (objects db))) h now db opts = Some r) \<and>
         (\<exists>run. ListObjectsRun (Suc (length (objects db))) h now db opts = Some run) \<and>
         (\<forall>fuel run. ListObjectsRun fuel h now db opts = Some run \<longrightarrow>
            runRepeat run \<le> runRequeryLimit run \<and>
            (runResult run = Inl TooManyRequeries \<longleftrightarrow> runRepeat run = runRequeryLimit run) \<and>
            runRequeryLimit run =
              Limit opts + 10 + int (length (hidingBatches opts (runBatches run))) \<and>
            runRepeat run \<le> int (length (runBatches run)) \<and>
            int (length (runBatches run)) \<le> runRepeat run + 1 \<and>
            (AllVersions opts \<or> list_all (\<lambda>r. \<not> IsDeleteMarker (status r)) (objects db) \<longrightarrow>
               runRequeryLimit run = Limit opts + 10) \<and>
            (\<forall>res. runResult run = Inr res \<longrightarrow>
               int (length (Objects res)) \<le> Limit opts \<and>
               Objects res = take (nat (Limit opts)) (runAccumulated run) \<and>
               (More res \<longleftrightarrow> int (length (runAccumulated run)) = Limit opts + 1)))"
proof -
  have t: "\<exists>run. ListObjectsRun (Suc (length (objects db))) h now db opts = Some run"
    by (rule ListObjectsRun_returns [OF assms(1,2)])
  then have t': "\<exists>r. ListObjects (Suc (length (objects db))) h now db opts = Some r"
    unfolding ListObjects_def by auto
  from assms(3,4) have w: "int64 (Limit opts + 10) = Limit opts + 10"
    unfolding countersFit_def by (intro int64_id) simp_all
  have m: "length (filter (candidate h now opts (StartCursor h opts)) (objects db))
             \<le> length (objects db)"
    by simp
  have b: "runBounds opts run" if "ListObjectsRun fuel h now db opts = Some run" for fuel run
    by (rule listLoop_bounds [OF assms(1-4) _ _ _ _ _ StartCursor_prefix _
          that [unfolded ListObjectsRun_def w]])
       (use assms(3) m in \<open>simp_all add: initialListState_def hidingBatches_def\<close>)
  have c: "runRequeryLimit run = Limit opts + 10"
    if "ListObjectsRun fuel h now db opts = Some run"
      and "AllVersions opts \<or> list_all (\<lambda>r. \<not> IsDeleteMarker (status r)) (objects db)"
    for fuel run
    by (rule listLoop_requery_const [OF that(2) that(1) [unfolded ListObjectsRun_def w]])
  show ?thesis using t t' b c unfolding runBounds_def by blast
qed

theorem ListObjects_terminates_bounded_witness:
  "versionsInRange exampleHelpers exampleListDB \<and>
   prefixLimitSound exampleHelpers (loPrefix (exampleList True False [] 1)) \<and>
   0 \<le> Limit (exampleList True False [] 1) \<and>
   countersFit (exampleList True False [] 1) exampleListDB \<and>
   ListObjectsRun (Suc (length (objects exampleListDB))) exampleHelpers 0 exampleListDB
     (exampleList True False [] 1) =
     Some \<lparr>runResult = Inr \<lparr>Objects = [exampleEntry ''b'' 1 CommittedVersioned True],
                             More = False\<rparr>,
           runAccumulated = [exampleEntry ''b'' 1 CommittedVersioned True],
           runRepeat = 1, runRequeryLimit = 12,
           runBatches =
             [(exampleShortBatch, initialListState),
              ([], exampleAfterShortBatch\<lparr>foundDeleteMarker := False, scannedCount := 0\<rparr>)]\<rparr> \<and>
   int (length (hidingBatches (exampleList True False [] 1)
          [(exampleShortBatch, initialListState),
           ([], exampleAfterShortBatch\<lparr>foundDeleteMarker := False, scannedCount := 0\<rparr>)])) = 1 \<and>
   int (length [exampleEntry ''b'' 1 CommittedVersioned True])
     \<le> Limit (exampleList True False [] 1) \<and>
   ListObjectsRun (Suc (length (objects exampleListDB))) exampleHelpers 0 exampleListDB
     (exampleList True True [] 1) =
     Some \<lparr>runResult = Inr \<lparr>Objects = [exampleEntry ''b'' 1 CommittedVersioned True],
                             More = True\<rparr>,
           runAccumulated = [exampleEntry ''b'' 1 CommittedVersioned True,
                             exampleEntry ''k'' 2 DeleteMarkerVersioned True],
           runRepeat = 0, runRequeryLimit = 11, runBatches = []\<rparr> \<and>
   int (length [exampleEntry ''b'' 1 CommittedVersioned True,
                exampleEntry ''k'' 2 DeleteMarkerVersioned True])
     = Limit (exampleList True True [] 1) + 1 \<and>
   versionsInRange exampleHelpers examplePrefixDB \<and>
   prefixLimitSound exampleHelpers (loPrefix (exampleList True False ''a/'' 1)) \<and>
   countersFit (exampleList True False ''a/'' 1) examplePrefixDB \<and>
   ListObjectsRun (Suc (length (objects examplePrefixDB))) exampleHelpers 0 examplePrefixDB
     (exampleList True False ''a/'' 1) =
     Some \<lparr>runResult = Inr \<lparr>Objects = [exampleEntry ''x'' 1 CommittedVersioned True],
                             More = False\<rparr>,
           runAccumulated = [exampleEntry ''x'' 1 CommittedVersioned True],
           runRepeat = 0, runRequeryLimit = 11,
           runBatches = [([exampleListRow ''a/x'' 1 CommittedVersioned], initialListState)]\<rparr> \<and>
   Limit (exampleList True False ''a/'' 1) + 10 = 11"
proof -
  have sound: "prefixLimitSound exampleHelpers (loPrefix (exampleList True av [] 1))" for av
    by (simp add: prefixLimitSound_def example_opts)
  have lim: "0 \<le> Limit (exampleList True av p 1)" for av p
    by (simp add: example_opts)
  note hidden = ListObjects_terminates_bounded [where h = exampleHelpers
      and db = exampleListDB and opts = "exampleList True False [] 1" and now = 0,
      OF example_list_db(2) sound lim example_list_db(4),
      THEN conjunct2, THEN conjunct2, THEN spec, THEN spec, THEN mp, OF example_run_hidden]
  note full = ListObjects_terminates_bounded [where h = exampleHelpers
      and db = exampleListDB and opts = "exampleList True True [] 1" and now = 0,
      OF example_list_db(2) sound lim example_list_db(4),
      THEN conjunct2, THEN conjunct2, THEN spec, THEN spec, THEN mp, OF example_run_full]
  have sound': "prefixLimitSound exampleHelpers (loPrefix (exampleList True False ''a/'' 1))"
    using example_prefix_sound by (simp add: example_opts)
  have nodm: "AllVersions (exampleList True False ''a/'' 1) \<or>
              list_all (\<lambda>r. \<not> IsDeleteMarker (status r)) (objects examplePrefixDB)"
    by (simp add: examplePrefixDB_def example_row_defs IsDeleteMarker_def)
  note under = ListObjects_terminates_bounded [where h = exampleHelpers
      and db = examplePrefixDB and opts = "exampleList True False ''a/'' 1" and now = 0,
      OF example_prefix_db(1) sound' lim example_prefix_db(2),
      THEN conjunct2, THEN conjunct2, THEN spec, THEN spec, THEN mp, OF example_prefix_run]
  have l1: "Limit (exampleList True False [] 1) = 1"
    by (simp add: example_opts)
  from hidden
  have a: "int (length (hidingBatches (exampleList True False [] 1)
          [(exampleShortBatch, initialListState),
           ([], exampleAfterShortBatch\<lparr>foundDeleteMarker := False, scannedCount := 0\<rparr>)])) = 1 \<and>
     int (length [exampleEntry ''b'' 1 CommittedVersioned True])
       \<le> Limit (exampleList True False [] 1)"
    by (simp add: l1)
  from full
  have b: "int (length [exampleEntry ''b'' 1 CommittedVersioned True,
                exampleEntry ''k'' 2 DeleteMarkerVersioned True])
     = Limit (exampleList True True [] 1) + 1"
    by simp
  from under nodm
  have c: "Limit (exampleList True False ''a/'' 1) + 10 = 11"
    by simp
  from example_list_db(2) sound [of False] lim [of False "[]"] example_list_db(4)
    example_run_hidden example_run_full a b
    example_prefix_db sound' example_prefix_run c
  show ?thesis by blast
qed

text \<open>
  The claim as stated fails for a batch that contains a delete marker which the loop
  does not hide: in a listing of all versions the batch of the examples, with the delete
  marker of the key \<open>k\<close>, is read to its end and \<open>requeryLimit\<close> is still \<open>Limit + 10\<close>.
\<close>

theorem ListObjects_requery_counterexample:
  "ListObjectsRun 1 exampleHelpers 0 exampleListDB (exampleList True True [] 10) =
     Some \<lparr>runResult = Inr \<lparr>Objects = [exampleEntry ''b'' 1 CommittedVersioned True,
                                        exampleEntry ''k'' 2 DeleteMarkerVersioned True,
                                        exampleEntry ''k'' 1 CommittedVersioned False],
                             More = False\<rparr>,
           runAccumulated = [exampleEntry ''b'' 1 CommittedVersioned True,
                             exampleEntry ''k'' 2 DeleteMarkerVersioned True,
                             exampleEntry ''k'' 1 CommittedVersioned False],
           runRepeat = 0, runRequeryLimit = 20,
           runBatches = [(exampleBatch, initialListState)]\<rparr> \<and>
   exampleBatch =
     [exampleListRow ''b'' 1 CommittedVersioned, exampleListRow ''k'' 2 DeleteMarkerVersioned,
      exampleListRow ''k'' 1 CommittedVersioned] \<and>
   IsDeleteMarker (status (exampleListRow ''k'' 2 DeleteMarkerVersioned)) \<and>
   Limit (exampleList True True [] 10) + 10 = 20"
  using example_run_all
  by (simp add: exampleBatch_def example_row_defs IsDeleteMarker_def example_opts)


end
